theory Spec2Isabelle
  imports Main "HOL-Library.AList" "HOL-Library.List_Lexorder"
begin

section \<open>Python values used by the scraper scripts\<close>

text \<open>
  A Python \<open>str\<close> is a sequence of Unicode code points. A code point is modelled as a
  natural number and a string as a list of them, so that the characters Python treats as
  white space or as line boundaries beyond ASCII are part of the model.
\<close>

type_synonym str = "nat list"

definition lit :: "string \<Rightarrow> str" where
  "lit s = map of_char s"

text \<open>
  An awaited Playwright call either returns a value or raises. The scripts distinguish
  Playwright's \<open>TimeoutError\<close> from every other \<open>Exception\<close>.
\<close>

datatype exn = TimeoutError | OtherError

datatype 'a outcome = Returns 'a | Raises exn

subsection \<open>\<open>str.strip\<close>, \<open>str.splitlines\<close>, \<open>str.join\<close>, \<open>str.split\<close>\<close>

text \<open>
  The code points for which \<open>str.isspace\<close> holds (CPython's white-space table):
  U+0009..U+000D, U+001C..U+0020, U+0085, U+00A0, U+1680, U+2000..U+200A, U+2028, U+2029,
  U+202F, U+205F, U+3000.
\<close>

definition is_whitespace :: "nat \<Rightarrow> bool" where
  "is_whitespace c \<longleftrightarrow>
     (9 \<le> c \<and> c \<le> 13) \<or> (28 \<le> c \<and> c \<le> 32) \<or> c = 133 \<or> c = 160 \<or> c = 5760 \<or>
     (8192 \<le> c \<and> c \<le> 8202) \<or> c = 8232 \<or> c = 8233 \<or> c = 8239 \<or> c = 8287 \<or> c = 12288"

text \<open>
  The line boundaries of \<open>str.splitlines\<close>: LF, VT, FF, CR, FS, GS, RS, NEL, LS, PS
  (and CR LF taken as one boundary).
\<close>

definition is_linebreak :: "nat \<Rightarrow> bool" where
  "is_linebreak c \<longleftrightarrow>
     (10 \<le> c \<and> c \<le> 13) \<or> (28 \<le> c \<and> c \<le> 30) \<or> c = 133 \<or> c = 8232 \<or> c = 8233"

definition strip :: "str \<Rightarrow> str" where
  "strip s = rev (dropWhile is_whitespace (rev (dropWhile is_whitespace s)))"

text \<open>
  \<open>splitlines_from cur s\<close> scans \<open>s\<close> with \<open>cur\<close> the line read so far. A boundary ends
  the current line (an empty line included); the text after the last boundary is a line
  only when it is not empty, so \<open>''''.splitlines() = []\<close> and a final boundary adds no
  empty line.
\<close>

fun splitlines_from :: "str \<Rightarrow> str \<Rightarrow> str list" where
  "splitlines_from cur [] = (if cur = [] then [] else [cur])"
| "splitlines_from cur (c # cs) =
     (if is_linebreak c
      then cur # splitlines_from [] (drop (if c = 13 \<and> take 1 cs = [10] then 1 else 0) cs)
      else splitlines_from (cur @ [c]) cs)"

definition splitlines :: "str \<Rightarrow> str list" where
  "splitlines s = splitlines_from [] s"

fun join :: "str \<Rightarrow> str list \<Rightarrow> str" where
  "join sep [] = []"
| "join sep [x] = x"
| "join sep (x # y # ys) = x @ sep @ join sep (y # ys)"

text \<open>\<open>s.split(sep)\<close> for a one-character separator: never the empty list.\<close>

fun split :: "nat \<Rightarrow> str \<Rightarrow> str list" where
  "split sep [] = [[]]"
| "split sep (c # cs) =
     (if c = sep then [] # split sep cs
      else (case split sep cs of [] \<Rightarrow> [[c]] | p # ps \<Rightarrow> (c # p) # ps))"

subsection \<open>The body clean-up of \<open>scrape_thread_page\<close>\<close>

text \<open>
  \<^verbatim>\<open>body = "\n".join(line.strip() for line in body.splitlines() if line.strip())\<close>
\<close>

definition clean_body :: "str \<Rightarrow> str" where
  "clean_body b = join [10] (map strip (filter (\<lambda>line. strip line \<noteq> []) (splitlines b)))"

section \<open>Thread extraction (\<open>03_main_scraper.py\<close>)\<close>

subsection \<open>What the browser shows for one thread URL\<close>

text \<open>
  The browser is external, so each awaited call of \<open>scrape_thread_page\<close> is given by its
  outcome: what \<open>text_content\<close>, \<open>get_attribute\<close> and \<open>inner_text\<close> give in one
  \<open>div.expanded-message\<close> container (\<open>text_content\<close> and \<open>get_attribute\<close> may return
  \<open>None\<close>), and for the page the outcomes of \<open>page.goto\<close>, of
  \<open>page.wait_for_selector\<close>, of \<open>page.title\<close> and of \<open>locator(...).all()\<close>.
\<close>

record msg_element =
  u_text_content :: "str option outcome"
  span_title_attribute :: "str option outcome"
  user_content_inner_text :: "str outcome"

record thread_page =
  goto :: "unit outcome"
  wait_for_selector :: "unit outcome"
  page_title :: "str outcome"
  message_elements :: "msg_element list outcome"

record message =
  author :: str
  timestamp :: str
  body :: str

record thread_record =
  url :: str
  title :: str
  messages :: "message list"

subsection \<open>\<open>scrape_thread_page\<close>\<close>

text \<open>\<^verbatim>\<open>x.strip() if x else "N/A"\<close>: \<open>None\<close> and the empty string are falsy.\<close>

definition strip_or_na :: "str option \<Rightarrow> str" where
  "strip_or_na x = (case x of None \<Rightarrow> lit ''N/A'' | Some s \<Rightarrow> if s = [] then lit ''N/A'' else strip s)"

text \<open>
  A field keeps its initial value \<open>"N/A"\<close> when its \<open>try\<close> block raises (every
  \<open>Exception\<close> is caught there).
\<close>

definition field_or_na :: "str option outcome \<Rightarrow> str option" where
  "field_or_na r = (case r of Returns v \<Rightarrow> v | Raises e \<Rightarrow> Some (lit ''N/A''))"

definition scrape_message :: "msg_element \<Rightarrow> message" where
  "scrape_message msg_element =
     \<lparr>author = strip_or_na (field_or_na (u_text_content msg_element)),
      timestamp = strip_or_na (field_or_na (span_title_attribute msg_element)),
      body = (case user_content_inner_text msg_element of
                Returns b \<Rightarrow> clean_body b
              | Raises e \<Rightarrow> lit ''N/A'')\<rparr>"

text \<open>The title block (lines 33 to 42); the delimiter \<open>|\<close> is code point 124.\<close>

definition scrape_title :: "str outcome \<Rightarrow> str" where
  "scrape_title t =
     (case t of
        Raises e \<Rightarrow> lit ''Title not found''
      | Returns full_title \<Rightarrow>
          (let title_parts = split 124 full_title
           in if length title_parts > 1 then strip (last title_parts) else full_title))"

text \<open>
  \<open>scrape_thread_page\<close> returns \<open>None\<close> when the navigation or the wait raises (a
  \<open>TimeoutError\<close> or any other \<open>Exception\<close>). The call \<open>locator(...).all()\<close> is outside
  every \<open>try\<close> block: when it raises, the exception leaves the function (\<open>Inl\<close>).
\<close>

definition scrape_thread_page :: "thread_page \<Rightarrow> str \<Rightarrow> exn + thread_record option" where
  "scrape_thread_page page u =
     (case goto page of
        Raises e \<Rightarrow> Inr None
      | Returns x \<Rightarrow>
          (case wait_for_selector page of
             Raises e \<Rightarrow> Inr None
           | Returns y \<Rightarrow>
               (case message_elements page of
                  Raises e \<Rightarrow> Inl e
                | Returns els \<Rightarrow>
                    Inr (Some \<lparr>url = u,
                               title = strip_or_na (Some (scrape_title (page_title page))),
                               messages = map scrape_message els\<rparr>))))"

subsection \<open>The files and the main loop\<close>

text \<open>
  A Python \<open>dict\<close> keeps insertion order; \<open>d[k] = v\<close> replaces the value of an existing
  key in place and appends a new key, which is \<open>AList.update\<close> on an association list.
\<close>

type_synonym store = "(str \<times> thread_record) list"

record files =
  auth_file :: bool
  urls_file :: "str list option"
  data_file :: "store option"

datatype event = Goto str | Click | Write_data store | Write_urls "str list"

definition SAVE_EVERY :: nat where
  "SAVE_EVERY = 10"

text \<open>
  The \<open>for\<close> loop of \<open>main\<close> over \<open>enumerate(urls_to_process)\<close>, from index \<open>i\<close>, with the
  page that the browser shows at the \<open>i\<close>-th visit given by \<open>browse i u\<close>. It returns the
  navigations and file writes in order, the mapping \<open>scraped_data\<close> at the end, and the
  exception that left the loop, if any. The test \<open>i == total_urls - 1\<close> is on Python
  integers, so the subtraction is done in \<open>int\<close>.
\<close>

fun scrape_loop ::
  "(nat \<Rightarrow> str \<Rightarrow> thread_page) \<Rightarrow> nat \<Rightarrow> nat \<Rightarrow> str list \<Rightarrow> store \<Rightarrow> event list \<times> store \<times> exn option"
where
  "scrape_loop browse total_urls i [] scraped_data = ([], scraped_data, None)"
| "scrape_loop browse total_urls i (u # rest) scraped_data =
     (case scrape_thread_page (browse i u) u of
        Inl e \<Rightarrow> ([Goto u], scraped_data, Some e)
      | Inr thread_data \<Rightarrow>
          (let scraped_data' = (case thread_data of
                                  None \<Rightarrow> scraped_data
                                | Some r \<Rightarrow> AList.update u r scraped_data);
               saved = (if (i + 1) mod SAVE_EVERY = 0 \<or> int i = int total_urls - 1
                        then [Write_data scraped_data'] else [])
           in (case scrape_loop browse total_urls (i + 1) rest scraped_data' of
                 (ev, final, r) \<Rightarrow> (Goto u # saved @ ev, final, r))))"

text \<open>
  \<open>main\<close> of \<open>03_main_scraper.py\<close>. The \<open>except Exception\<close> clause only prints; the
  \<open>finally\<close> clause writes the data file once more in every case.
\<close>

definition main_03 :: "(nat \<Rightarrow> str \<Rightarrow> thread_page) \<Rightarrow> files \<Rightarrow> files \<times> event list" where
  "main_03 browse fs =
     (if \<not> auth_file fs then (fs, [])
      else case urls_file fs of
        None \<Rightarrow> (fs, [])
      | Some urls_to_scrape \<Rightarrow>
          (let scraped_data = (case data_file fs of None \<Rightarrow> [] | Some d \<Rightarrow> d);
               urls_to_process = filter (\<lambda>u. u \<notin> fst ` set scraped_data) urls_to_scrape
           in if urls_to_process = [] then (fs, [])
              else (case scrape_loop browse (length urls_to_process) 0 urls_to_process scraped_data of
                      (ev, final, r) \<Rightarrow> (fs\<lparr>data_file := Some final\<rparr>, ev @ [Write_data final]))))"

section \<open>Thread discovery (\<open>000002_main_scraper.py\<close>)\<close>

subsection \<open>\<open>find_and_click_next_page\<close>\<close>

text \<open>
  For each locator of \<open>locators_to_try\<close>, in order: the outcome of \<open>is_visible\<close> and the
  outcome of \<open>click\<close> (read only when \<open>is_visible\<close> returned true).
\<close>

record locator_probe =
  is_visible :: "bool outcome"
  click :: "unit outcome"

text \<open>\<open>000002_main_scraper.py\<close>: \<^verbatim>\<open>except (TimeoutError, Exception): continue\<close>.\<close>

fun find_and_click_next_page :: "locator_probe list \<Rightarrow> exn + bool" where
  "find_and_click_next_page [] = Inr False"
| "find_and_click_next_page (locator # rest) =
     (case is_visible locator of
        Raises e \<Rightarrow> find_and_click_next_page rest
      | Returns False \<Rightarrow> find_and_click_next_page rest
      | Returns True \<Rightarrow>
          (case click locator of
             Raises e \<Rightarrow> find_and_click_next_page rest
           | Returns x \<Rightarrow> Inr True))"

text \<open>\<open>00002_main_scraper.py\<close>: \<^verbatim>\<open>except TimeoutError: continue\<close>.\<close>

fun find_and_click_next_page_00002 :: "locator_probe list \<Rightarrow> exn + bool" where
  "find_and_click_next_page_00002 [] = Inr False"
| "find_and_click_next_page_00002 (locator # rest) =
     (case is_visible locator of
        Raises TimeoutError \<Rightarrow> find_and_click_next_page_00002 rest
      | Raises OtherError \<Rightarrow> Inl OtherError
      | Returns False \<Rightarrow> find_and_click_next_page_00002 rest
      | Returns True \<Rightarrow>
          (case click locator of
             Raises TimeoutError \<Rightarrow> find_and_click_next_page_00002 rest
           | Raises OtherError \<Rightarrow> Inl OtherError
           | Returns x \<Rightarrow> Inr True))"

subsection \<open>\<open>get_all_thread_urls\<close>\<close>

text \<open>
  A result page: the \<open>href\<close> attribute read from each thread link (a read may raise, and
  may give \<open>None\<close>), the probes of the next-page locators, and the outcome of
  \<open>wait_for_load_state\<close> after a click. \<open>pages n\<close> is the page shown while
  \<open>page_count = n\<close>.
\<close>

record listing_page =
  links :: "str option outcome list outcome"
  locators_to_try :: "locator_probe list"
  wait_for_load_state :: "unit outcome"

record topics_site =
  goto_group :: "unit outcome"
  wait_for_thread_link :: "unit outcome"
  pages :: "nat \<Rightarrow> listing_page"

definition GROUP_URL :: str where
  "GROUP_URL = lit ''https://ardc.groups.io/g/44net/topics''"

text \<open>The inner \<open>for link in links\<close> loop, which fills \<open>current_page_urls\<close>.\<close>

fun collect_urls :: "str option outcome list \<Rightarrow> str set \<Rightarrow> exn + str set" where
  "collect_urls [] current_page_urls = Inr current_page_urls"
| "collect_urls (link # rest) current_page_urls =
     (case link of
        Raises e \<Rightarrow> Inl e
      | Returns None \<Rightarrow> collect_urls rest current_page_urls
      | Returns (Some href) \<Rightarrow>
          (if href = [] then collect_urls rest current_page_urls
           else collect_urls rest (insert (lit ''https://groups.io'' @ href) current_page_urls)))"

text \<open>
  The \<open>while True\<close> loop. It may run forever, which is the value \<open>None\<close>. It returns the
  exception that left it or the pair of \<open>seen_urls\<close> and \<open>page_count\<close> at the
  \<open>break\<close>, with the navigations made.
\<close>

partial_function (option) paginate ::
  "(nat \<Rightarrow> listing_page) \<Rightarrow> str set \<Rightarrow> nat \<Rightarrow> event list \<Rightarrow> ((exn + str set \<times> nat) \<times> event list) option"
where
  "paginate pgs seen_urls page_count ev =
     (case links (pgs page_count) of
        Raises e \<Rightarrow> Some (Inl e, ev)
      | Returns ls \<Rightarrow>
          (case collect_urls ls {} of
             Inl e \<Rightarrow> Some (Inl e, ev)
           | Inr current_page_urls \<Rightarrow>
               (case find_and_click_next_page (locators_to_try (pgs page_count)) of
                  Inl e \<Rightarrow> Some (Inl e, ev)
                | Inr clicked \<Rightarrow>
                    (if clicked
                     then (case wait_for_load_state (pgs page_count) of
                             Raises e \<Rightarrow> Some (Inl e, ev @ [Click])
                           | Returns x \<Rightarrow>
                               paginate pgs (seen_urls \<union> current_page_urls) (page_count + 1)
                                 (ev @ [Click]))
                     else Some (Inr (seen_urls \<union> current_page_urls, page_count), ev)))))"

text \<open>
  \<open>get_all_thread_urls\<close> returns \<open>list(seen_urls)\<close>, a list in no specified order; the
  model returns the set, and \<open>sorted(thread_urls)\<close> in \<open>main\<close> is the sorted list of
  that set.
\<close>

definition get_all_thread_urls :: "topics_site \<Rightarrow> ((exn + str set) \<times> event list) option" where
  "get_all_thread_urls site =
     (case goto_group site of
        Raises e \<Rightarrow> Some (Inl e, [Goto GROUP_URL])
      | Returns x \<Rightarrow>
          (case wait_for_thread_link site of
             Raises e \<Rightarrow> Some (Inl e, [Goto GROUP_URL])
           | Returns y \<Rightarrow>
               (case paginate (pages site) {} 1 [Goto GROUP_URL] of
                  None \<Rightarrow> None
                | Some (Inl e, ev) \<Rightarrow> Some (Inl e, ev)
                | Some (Inr (seen_urls, page_count), ev) \<Rightarrow> Some (Inr seen_urls, ev))))"

text \<open>\<open>main\<close> of \<open>000002_main_scraper.py\<close>; both \<open>except\<close> clauses only print.\<close>

definition main_000002 :: "topics_site \<Rightarrow> files \<Rightarrow> (files \<times> event list) option" where
  "main_000002 site fs =
     (if \<not> auth_file fs then Some (fs, [])
      else case get_all_thread_urls site of
        None \<Rightarrow> None
      | Some (Inl e, ev) \<Rightarrow> Some (fs, ev)
      | Some (Inr thread_urls, ev) \<Rightarrow>
          Some (fs\<lparr>urls_file := Some (sorted_list_of_set thread_urls)\<rparr>,
                ev @ [Write_urls (sorted_list_of_set thread_urls)]))"

section \<open>Thread discovery by page number (\<open>02_main_scraper.py\<close>)\<close>

text \<open>
  \<open>get_all_thread_urls_by_looping\<close> has no next-page step: it visits the pages of
  \<open>PAGE_RANGE = range(1, 10)\<close> by URL. \<open>site n\<close> gives, for page number \<open>n\<close>, the
  outcomes of \<open>page.goto\<close>, of \<open>page.wait_for_selector\<close> and of the link reads. The
  \<open>try\<close> block around the first two catches \<open>TimeoutError\<close> only, and ends the loop;
  a page without links ends the loop too. \<open>decimal\<close> is \<open>str\<close> of a non-negative
  integer, for the f-string that builds the target URL.
\<close>

fun decimal :: "nat \<Rightarrow> str" where
  "decimal n = (if n < 10 then [48 + n] else decimal (n div 10) @ [48 + n mod 10])"

definition GROUP_URL_BASE :: str where
  "GROUP_URL_BASE = lit ''https://ardc.groups.io/g/44net/topics?page=''"

definition PAGE_RANGE :: "nat list" where
  "PAGE_RANGE = [1..<10]"

record numbered_page =
  goto_page :: "unit outcome"
  wait_for_topics :: "unit outcome"
  topic_links :: "str option outcome list outcome"

fun loop_pages ::
  "(nat \<Rightarrow> numbered_page) \<Rightarrow> nat list \<Rightarrow> str set \<Rightarrow> event list \<Rightarrow> (exn + str set) \<times> event list"
where
  "loop_pages site [] seen_urls ev = (Inr seen_urls, ev)"
| "loop_pages site (page_num # rest) seen_urls ev =
     (case goto_page (site page_num) of
        Raises TimeoutError \<Rightarrow> (Inr seen_urls, ev @ [Goto (GROUP_URL_BASE @ decimal page_num)])
      | Raises OtherError \<Rightarrow> (Inl OtherError, ev @ [Goto (GROUP_URL_BASE @ decimal page_num)])
      | Returns x \<Rightarrow>
          (case wait_for_topics (site page_num) of
             Raises TimeoutError \<Rightarrow> (Inr seen_urls, ev @ [Goto (GROUP_URL_BASE @ decimal page_num)])
           | Raises OtherError \<Rightarrow> (Inl OtherError, ev @ [Goto (GROUP_URL_BASE @ decimal page_num)])
           | Returns y \<Rightarrow>
               (case topic_links (site page_num) of
                  Raises e \<Rightarrow> (Inl e, ev @ [Goto (GROUP_URL_BASE @ decimal page_num)])
                | Returns ls \<Rightarrow>
                    (if ls = [] then (Inr seen_urls, ev @ [Goto (GROUP_URL_BASE @ decimal page_num)])
                     else (case collect_urls ls seen_urls of
                             Inl e \<Rightarrow> (Inl e, ev @ [Goto (GROUP_URL_BASE @ decimal page_num)])
                           | Inr seen_urls' \<Rightarrow>
                               loop_pages site rest seen_urls'
                                 (ev @ [Goto (GROUP_URL_BASE @ decimal page_num)]))))))"

definition get_all_thread_urls_by_looping ::
  "(nat \<Rightarrow> numbered_page) \<Rightarrow> (exn + str set) \<times> event list" where
  "get_all_thread_urls_by_looping site = loop_pages site PAGE_RANGE {} []"

section \<open>Auxiliary definitions for the proofs\<close>

text \<open>The lines that \<open>clean_body\<close> joins.\<close>

definition cleaned_lines :: "str \<Rightarrow> str list" where
  "cleaned_lines b = map strip (filter (\<lambda>line. strip line \<noteq> []) (splitlines b))"

text \<open>A message body with CR LF, an empty line, U+2028 and a tab.\<close>

definition sample_body :: str where
  "sample_body = lit ''  Hi all,  '' @ [13, 10, 10] @ lit '' see '' @ [8232, 9, 10] @ lit ''73''"

text \<open>The URLs passed to \<open>page.goto\<close>, in order.\<close>

fun gotos :: "event list \<Rightarrow> str list" where
  "gotos [] = []"
| "gotos (Goto u # ev) = u # gotos ev"
| "gotos (e # ev) = gotos ev"

text \<open>
  For each write of the data file, the number of URLs visited before it, counted from
  \<open>n\<close>.
\<close>

fun write_positions :: "nat \<Rightarrow> event list \<Rightarrow> nat list" where
  "write_positions n [] = []"
| "write_positions n (Goto u # ev) = write_positions (n + 1) ev"
| "write_positions n (Write_data d # ev) = n # write_positions n ev"
| "write_positions n (e # ev) = write_positions n ev"

text \<open>The records that the loop extracts, in order, up to an exception that leaves it.\<close>

fun extracted :: "(nat \<Rightarrow> str \<Rightarrow> thread_page) \<Rightarrow> nat \<Rightarrow> str list \<Rightarrow> (str \<times> thread_record) list" where
  "extracted browse i [] = []"
| "extracted browse i (u # rest) =
     (case scrape_thread_page (browse i u) u of
        Inl e \<Rightarrow> []
      | Inr None \<Rightarrow> extracted browse (i + 1) rest
      | Inr (Some r) \<Rightarrow> (u, r) # extracted browse (i + 1) rest)"

text \<open>The mapping after the assignments \<open>existing[u] = r\<close> for the new entries, in order.\<close>

definition merge :: "store \<Rightarrow> (str \<times> thread_record) list \<Rightarrow> store" where
  "merge existing new_entries = fold (\<lambda>(u, r). AList.update u r) new_entries existing"

text \<open>No interruption: \<open>locator(...).all()\<close> never raises, so no exception leaves the loop.\<close>

definition no_crash :: "(nat \<Rightarrow> str \<Rightarrow> thread_page) \<Rightarrow> bool" where
  "no_crash browse \<longleftrightarrow> (\<forall>i u. \<exists>els. message_elements (browse i u) = Returns els)"

text \<open>The mapping in the data file (empty when the file is absent).\<close>

definition stored :: "files \<Rightarrow> store" where
  "stored fs = (case data_file fs of None \<Rightarrow> [] | Some d \<Rightarrow> d)"

definition urls_to_process :: "files \<Rightarrow> str list \<Rightarrow> str list" where
  "urls_to_process fs urls_to_scrape = filter (\<lambda>u. u \<notin> fst ` set (stored fs)) urls_to_scrape"

text \<open>Sample inputs: a message without a time stamp, two pages, a resumed run.\<close>

definition sample_msg :: msg_element where
  "sample_msg = \<lparr>u_text_content = Returns (Some (lit '' Bob '')),
                  span_title_attribute = Raises TimeoutError,
                  user_content_inner_text = Returns (lit ''hi'' @ [10, 10] @ lit '' 73 '')\<rparr>"

definition page_ok :: thread_page where
  "page_ok = \<lparr>goto = Returns (), wait_for_selector = Returns (),
               page_title = Returns (lit ''44net@ardc.groups.io | 44. And aredn''),
               message_elements = Returns [sample_msg]\<rparr>"

definition page_timeout :: thread_page where
  "page_timeout = \<lparr>goto = Returns (), wait_for_selector = Raises TimeoutError,
                    page_title = Returns [], message_elements = Returns []\<rparr>"

definition sample_browse :: "nat \<Rightarrow> str \<Rightarrow> thread_page" where
  "sample_browse i u = (if u = lit ''t2'' then page_timeout else page_ok)"

definition old_record :: thread_record where
  "old_record = \<lparr>url = lit ''t1'', title = lit ''old'', messages = []\<rparr>"

definition sample_files :: files where
  "sample_files = \<lparr>auth_file = True,
                    urls_file = Some [lit ''t1'', lit ''t2'', lit ''t3''],
                    data_file = Some [(lit ''t1'', old_record)]\<rparr>"

text \<open>The mappings written to the data file, in order.\<close>

fun written :: "event list \<Rightarrow> store list" where
  "written [] = []"
| "written (Write_data d # ev) = d # written ev"
| "written (e # ev) = written ev"

text \<open>
  The counts at which the loop writes when it runs over \<open>n\<close> more URLs from index \<open>i\<close>.
\<close>

fun flush_points :: "nat \<Rightarrow> nat \<Rightarrow> nat \<Rightarrow> nat list" where
  "flush_points tot i 0 = []"
| "flush_points tot i (Suc n) =
     (if (i + 1) mod SAVE_EVERY = 0 \<or> int i = int tot - 1 then [i + 1] else []) @
     flush_points tot (i + 1) n"

text \<open>A first run over 23 URLs; a run without the session file; a run without the URL file.\<close>

definition files_23 :: files where
  "files_23 = \<lparr>auth_file = True, urls_file = Some (map (\<lambda>n. [n]) [0..<23]), data_file = None\<rparr>"

definition no_auth_files :: files where
  "no_auth_files = \<lparr>auth_file = False, urls_file = Some [lit ''t1''], data_file = None\<rparr>"

definition no_urls_files :: files where
  "no_urls_files = \<lparr>auth_file = True, urls_file = None, data_file = None\<rparr>"

text \<open>
  The next-page step succeeds on a page; a page on which no call outside the next-page
  step raises; a locator that is visible and whose click succeeds.
\<close>

definition advance :: "listing_page \<Rightarrow> bool" where
  "advance pg \<longleftrightarrow> find_and_click_next_page (locators_to_try pg) = Inr True"

definition quiet :: "listing_page \<Rightarrow> bool" where
  "quiet pg \<longleftrightarrow>
     (\<exists>ls urls. links pg = Returns ls \<and> collect_urls ls {} = Inr urls) \<and>
     wait_for_load_state pg = Returns ()"

definition matches :: "locator_probe \<Rightarrow> bool" where
  "matches locator \<longleftrightarrow> is_visible locator = Returns True \<and> click locator = Returns ()"

text \<open>A URL built by prefixing a collected, non-empty \<open>href\<close> with the fixed host.\<close>

definition is_thread_url :: "str \<Rightarrow> bool" where
  "is_thread_url u \<longleftrightarrow> (\<exists>href. href \<noteq> [] \<and> u = lit ''https://groups.io'' @ href)"

text \<open>
  Sample site: three result pages, the second without any thread link, the next-page
  control found by a different locator on the first two pages and absent on the third.
\<close>

definition next_hidden :: locator_probe where
  "next_hidden = \<lparr>is_visible = Returns False, click = Raises TimeoutError\<rparr>"

definition next_broken :: locator_probe where
  "next_broken = \<lparr>is_visible = Raises OtherError, click = Raises OtherError\<rparr>"

definition next_visible :: locator_probe where
  "next_visible = \<lparr>is_visible = Returns True, click = Returns ()\<rparr>"

definition sample_pages :: "nat \<Rightarrow> listing_page" where
  "sample_pages n =
     (if n = 1 then
        \<lparr>links = Returns [Returns (Some (lit ''/g/44net/topic/2'')), Returns None,
                           Returns (Some (lit ''/g/44net/topic/1''))],
         locators_to_try = [next_hidden, next_visible, next_hidden, next_hidden],
         wait_for_load_state = Returns ()\<rparr>
      else if n = 2 then
        \<lparr>links = Returns [],
         locators_to_try = [next_broken, next_hidden, next_visible, next_hidden],
         wait_for_load_state = Returns ()\<rparr>
      else
        \<lparr>links = Returns [Returns (Some (lit ''/g/44net/topic/2'')), Returns (Some [])],
         locators_to_try = [next_hidden, next_hidden, next_hidden, next_hidden],
         wait_for_load_state = Returns ()\<rparr>)"

definition sample_site :: topics_site where
  "sample_site = \<lparr>goto_group = Returns (), wait_for_thread_link = Returns (), pages = sample_pages\<rparr>"

text \<open>Sample site for the page-number loop: every page has one thread link, except page 2.\<close>

definition numbered_sample :: "nat \<Rightarrow> numbered_page" where
  "numbered_sample n =
     \<lparr>goto_page = Returns (), wait_for_topics = Returns (),
      topic_links = (if n = 2 then Returns []
                     else Returns [Returns (Some (lit ''/g/44net/topic/'' @ decimal n))])\<rparr>"

section \<open>Body clean-up\<close>

lemma last_dropWhile_nonempty: "dropWhile P xs \<noteq> [] \<Longrightarrow> last (dropWhile P xs) = last xs"
proof -
  assume a: "dropWhile P xs \<noteq> []"
  have "last xs = last (takeWhile P xs @ dropWhile P xs)" by simp
  also have "\<dots> = last (dropWhile P xs)" using a by (simp del: takeWhile_dropWhile_id)
  finally show ?thesis by simp
qed

lemma strip_Nil: "strip [] = []" by (simp add: strip_def)

lemma strip_hd: "strip s \<noteq> [] \<Longrightarrow> \<not> is_whitespace (hd (strip s))"
proof -
  assume a: "strip s \<noteq> []"
  let ?d = "dropWhile is_whitespace s"
  let ?e = "dropWhile is_whitespace (rev ?d)"
  from a have e: "?e \<noteq> []" by (simp add: strip_def)
  have d: "?d \<noteq> []" using e by (metis dropWhile.simps(1) rev.simps(1))
  have "hd (strip s) = last ?e" using e by (simp add: strip_def hd_rev)
  also have "\<dots> = last (rev ?d)" using e by (rule last_dropWhile_nonempty)
  also have "\<dots> = hd ?d" using d by (simp add: last_rev)
  finally show ?thesis using hd_dropWhile[OF d] by simp
qed

lemma strip_last: "strip s \<noteq> [] \<Longrightarrow> \<not> is_whitespace (last (strip s))"
proof -
  assume a: "strip s \<noteq> []"
  let ?e = "dropWhile is_whitespace (rev (dropWhile is_whitespace s))"
  from a have e: "?e \<noteq> []" by (simp add: strip_def)
  have "last (strip s) = hd ?e" using e by (simp add: strip_def last_rev)
  then show ?thesis using hd_dropWhile[OF e] by simp
qed

lemma strip_fixed: "s \<noteq> [] \<Longrightarrow> \<not> is_whitespace (hd s) \<Longrightarrow> \<not> is_whitespace (last s) \<Longrightarrow> strip s = s"
proof -
  assume a: "s \<noteq> []" "\<not> is_whitespace (hd s)" "\<not> is_whitespace (last s)"
  then have 1: "dropWhile is_whitespace s = s" by (simp add: dropWhile_eq_self_iff)
  from a have "dropWhile is_whitespace (rev s) = rev s"
    by (simp add: dropWhile_eq_self_iff hd_rev)
  with 1 show ?thesis by (simp add: strip_def)
qed

lemma strip_strip: "strip (strip s) = strip s"
proof (cases "strip s = []")
  case True
  then show ?thesis by (simp add: strip_Nil)
next
  case False then show ?thesis by (simp add: strip_fixed strip_hd strip_last)
qed

lemma linebreak_whitespace: "is_linebreak c \<Longrightarrow> is_whitespace c"
  by (auto simp: is_linebreak_def is_whitespace_def)

lemma strip_subset: "set (strip s) \<subseteq> set s"
  unfolding strip_def by (auto dest!: set_dropWhileD)

lemma splitlines_from_no_lb:
  "\<forall>c\<in>set cur. \<not> is_linebreak c \<Longrightarrow> l \<in> set (splitlines_from cur s) \<Longrightarrow> c \<in> set l \<Longrightarrow> \<not> is_linebreak c"
proof (induction cur s rule: splitlines_from.induct)
  case (1 cur)
  then show ?case by (simp split: if_splits)
next
  case (2 cur c' cs)
  show ?case
  proof (cases "is_linebreak c'")
    case True
    with 2 show ?thesis by (simp del: drop_Suc_Cons) blast
  next
    case False
    with 2 show ?thesis by simp
  qed
qed

lemma splitlines_from_append:
  "\<forall>c\<in>set l. \<not> is_linebreak c \<Longrightarrow> splitlines_from cur (l @ rest) = splitlines_from (cur @ l) rest"
  by (induction l arbitrary: cur) simp_all

lemma lb10: "is_linebreak 10" by (simp add: is_linebreak_def)

lemma splitlines_from_join:
  "\<forall>l\<in>set ls. l \<noteq> [] \<and> (\<forall>c\<in>set l. \<not> is_linebreak c) \<Longrightarrow> splitlines_from [] (join [10] ls) = ls"
proof (induction ls)
  case Nil then show ?case by simp
next
  case (Cons x ys)
  show ?case
  proof (cases ys)
    case Nil
    with Cons.prems show ?thesis
      using splitlines_from_append[of x "[]" "[]"] by simp
  next
    case (Cons y zs)
    have "splitlines_from [] (join [10] (x # ys)) = splitlines_from [] (x @ 10 # join [10] ys)"
      using Cons by simp
    also have "\<dots> = splitlines_from x (10 # join [10] ys)"
      using Cons.prems splitlines_from_append[of x "[]"] by simp
    also have "\<dots> = x # splitlines_from [] (join [10] ys)"
      by (simp add: lb10)
    also have "\<dots> = x # ys" using Cons.IH Cons.prems by simp
    finally show ?thesis .
  qed
qed

lemma clean_body_join: "clean_body b = join [10] (cleaned_lines b)"
  by (simp add: clean_body_def cleaned_lines_def)

lemma cleaned_lines_props:
  assumes "l \<in> set (cleaned_lines b)"
  shows "l \<noteq> []" "strip l = l" "\<not> is_whitespace (hd l)" "\<not> is_whitespace (last l)" "\<forall>c\<in>set l. \<not> is_linebreak c"
proof -
  from assms obtain l0 where l0: "l0 \<in> set (splitlines b)" "strip l0 \<noteq> []" "l = strip l0"
    by (auto simp: cleaned_lines_def)
  show "l \<noteq> []" using l0 by simp
  show "strip l = l" using l0 by (simp add: strip_strip)
  show "\<not> is_whitespace (hd l)" using l0 by (simp add: strip_hd)
  show "\<not> is_whitespace (last l)" using l0 by (simp add: strip_last)
  have "\<forall>c\<in>set l0. \<not> is_linebreak c"
    using l0(1) splitlines_from_no_lb[of "[]" l0 b] by (auto simp: splitlines_def)
  then show "\<forall>c\<in>set l. \<not> is_linebreak c" using l0(3) strip_subset[of l0] by blast
qed

lemma splitlines_clean_body: "splitlines (clean_body b) = cleaned_lines b"
proof -
  have "splitlines_from [] (join [10] (cleaned_lines b)) = cleaned_lines b"
    by (rule splitlines_from_join) (use cleaned_lines_props in blast)
  then show ?thesis by (simp only: splitlines_def clean_body_join)
qed

lemma cleaned_lines_clean_body: "cleaned_lines (clean_body b) = cleaned_lines b"
proof -
  have "cleaned_lines (clean_body b) = map strip (filter (\<lambda>line. strip line \<noteq> []) (cleaned_lines b))"
    by (simp only: cleaned_lines_def[of "clean_body b"] splitlines_clean_body)
  also have "filter (\<lambda>line. strip line \<noteq> []) (cleaned_lines b) = cleaned_lines b"
    using cleaned_lines_props(1,2)[of _ b] by (simp add: filter_id_conv)
  also have "map strip (cleaned_lines b) = cleaned_lines b"
    using cleaned_lines_props(2)[of _ b] by (simp add: map_idI)
  finally show ?thesis .
qed

text \<open>
  C10. The body clean-up is idempotent, and each line of its output is not empty, is not
  blank (white space only), and has no white space at its start or at its end.
\<close>

theorem clean_body_idempotent:
  "clean_body (clean_body b) = clean_body b \<and>
   (\<forall>line\<in>set (splitlines (clean_body b)).
      line \<noteq> [] \<and> strip line \<noteq> [] \<and> \<not> is_whitespace (hd line) \<and> \<not> is_whitespace (last line))"
proof
  show "clean_body (clean_body b) = clean_body b"
    by (simp only: clean_body_join[of "clean_body b"] cleaned_lines_clean_body clean_body_join[symmetric])
  show "\<forall>line\<in>set (splitlines (clean_body b)).
      line \<noteq> [] \<and> strip line \<noteq> [] \<and> \<not> is_whitespace (hd line) \<and> \<not> is_whitespace (last line)"
    using cleaned_lines_props[of _ b] by (simp add: splitlines_clean_body)
qed

lemma sample_body_lines:
  "splitlines (clean_body sample_body) = [lit ''Hi all,'', lit ''see'', lit ''73'']"
  by (simp add: sample_body_def clean_body_def splitlines_def lit_def strip_def
      is_whitespace_def is_linebreak_def)

theorem clean_body_idempotent_witness:
  "clean_body (clean_body sample_body) = clean_body sample_body \<and>
   lit ''see'' \<in> set (splitlines (clean_body sample_body)) \<and>
   lit ''see'' \<noteq> [] \<and> strip (lit ''see'') \<noteq> [] \<and>
   \<not> is_whitespace (hd (lit ''see'')) \<and> \<not> is_whitespace (last (lit ''see''))"
proof -
  have "lit ''see'' \<in> set (splitlines (clean_body sample_body))"
    by (simp add: sample_body_lines)
  with clean_body_idempotent [of sample_body] show ?thesis by blast
qed

section \<open>The thread title\<close>

lemma split_shape:
  "split c t \<noteq> [] \<and> c \<notin> set (last (split c t)) \<and>
   (c \<notin> set t \<longrightarrow> split c t = [t]) \<and>
   (c \<in> set t \<longrightarrow> length (split c t) > 1 \<and> (\<exists>pre. t = pre @ c # last (split c t)))"
proof (induction t)
  case Nil
  then show ?case by simp
next
  case (Cons x xs)
  show ?case
  proof (cases "x = c")
    case xc: True
    have ne: "split c xs \<noteq> []" using Cons by simp
    have l: "last (split c (x # xs)) = last (split c xs)" using xc ne by simp
    have len: "length (split c (x # xs)) > 1" using xc ne by (cases "split c xs") simp_all
    have "\<exists>pre'. x # xs = pre' @ c # last (split c xs)"
    proof (cases "c \<in> set xs")
      case True
      with Cons obtain pre where "xs = pre @ c # last (split c xs)" by blast
      then have "x # xs = (x # pre) @ c # last (split c xs)" by simp
      then show ?thesis by blast
    next
      case False
      with Cons have "split c xs = [xs]" by simp
      then have "x # xs = [] @ c # last (split c xs)" using xc by simp
      then show ?thesis by blast
    qed
    with l len Cons xc show ?thesis by simp
  next
    case False
    obtain p ps where pps: "split c xs = p # ps" using Cons by (cases "split c xs") auto
    show ?thesis
    proof (cases "c \<in> set xs")
      case True
      with Cons obtain pre where pre: "xs = pre @ c # last (split c xs)" by blast
      from True Cons pps have "ps \<noteq> []" by auto
      then have "last (split c (x # xs)) = last (split c xs)" using pps False by simp
      moreover have "x # xs = (x # pre) @ c # last (split c xs)" using pre by simp
      ultimately have "\<exists>pre'. x # xs = pre' @ c # last (split c (x # xs))" by metis
      moreover have "length (split c (x # xs)) > 1" using pps False \<open>ps \<noteq> []\<close> by simp
      moreover have "c \<notin> set (last (split c (x # xs)))"
        using Cons \<open>last (split c (x # xs)) = last (split c xs)\<close> by simp
      ultimately show ?thesis using True False pps by simp
    next
      case c: False
      with Cons have "split c xs = [xs]" by simp
      with False c show ?thesis by simp
    qed
  qed
qed

text \<open>The record stores the title stripped once more, and \<open>N/A\<close> for an empty one.\<close>

lemma scrape_thread_page_title:
  "scrape_thread_page page u = Inr (Some r) \<Longrightarrow>
   title r = (if scrape_title (page_title page) = [] then lit ''N/A''
              else strip (scrape_title (page_title page)))"
  by (auto simp: scrape_thread_page_def strip_or_na_def split: outcome.splits)

text \<open>
  C8. The title block gives the sentinel \<open>Title not found\<close> when \<open>page.title()\<close>
  raises, the raw document title when the delimiter \<open>|\<close> does not occur in it, and
  otherwise the stripped text after the last delimiter. The record that
  \<open>scrape_thread_page\<close> returns holds this title stripped, or \<open>N/A\<close> when it is empty.
\<close>

theorem scrape_title_cases:
  "scrape_title (Raises e) = lit ''Title not found'' \<and>
   (124 \<notin> set full_title \<longrightarrow> scrape_title (Returns full_title) = full_title) \<and>
   (124 \<in> set full_title \<longrightarrow>
      (\<exists>prefix rest. full_title = prefix @ 124 # rest \<and> 124 \<notin> set rest \<and>
         scrape_title (Returns full_title) = strip rest)) \<and>
   (scrape_thread_page page u = Inr (Some r) \<longrightarrow>
      title r = (if scrape_title (page_title page) = [] then lit ''N/A''
                 else strip (scrape_title (page_title page))))"
proof (intro conjI impI)
  show "scrape_title (Raises e) = lit ''Title not found''" by (simp add: scrape_title_def)
next
  assume "scrape_thread_page page u = Inr (Some r)"
  then show "title r = (if scrape_title (page_title page) = [] then lit ''N/A''
                 else strip (scrape_title (page_title page)))"
    by (rule scrape_thread_page_title)
next
  assume "124 \<notin> set full_title"
  then have "split 124 full_title = [full_title]" using split_shape[of 124 full_title] by simp
  then show "scrape_title (Returns full_title) = full_title" by (simp add: scrape_title_def)
next
  assume a: "124 \<in> set full_title"
  let ?rest = "last (split 124 full_title)"
  from a split_shape[of 124 full_title] obtain pre where
    "length (split 124 full_title) > 1" "full_title = pre @ 124 # ?rest" "124 \<notin> set ?rest"
    by blast
  moreover from this have "scrape_title (Returns full_title) = strip ?rest"
    by (simp add: scrape_title_def)
  ultimately show "\<exists>prefix rest. full_title = prefix @ 124 # rest \<and> 124 \<notin> set rest \<and>
         scrape_title (Returns full_title) = strip rest" by blast
qed

theorem scrape_title_cases_witness:
  "scrape_title (Raises TimeoutError) = lit ''Title not found'' \<and>
   124 \<notin> set (lit ''Topics'') \<and> scrape_title (Returns (lit ''Topics'')) = lit ''Topics'' \<and>
   124 \<in> set (lit ''44net@ardc.groups.io | 44. And aredn'') \<and>
   (\<exists>prefix rest. lit ''44net@ardc.groups.io | 44. And aredn'' = prefix @ 124 # rest \<and>
      124 \<notin> set rest \<and>
      scrape_title (Returns (lit ''44net@ardc.groups.io | 44. And aredn'')) = strip rest) \<and>
   scrape_title (Returns (lit ''44net@ardc.groups.io | 44. And aredn'')) = lit ''44. And aredn'' \<and>
   (\<exists>r. scrape_thread_page page_ok (lit ''t3'') = Inr (Some r) \<and> title r = lit ''44. And aredn'')"
proof -
  have a: "124 \<notin> set (lit ''Topics'')" by (simp add: lit_def)
  have b: "124 \<in> set (lit ''44net@ardc.groups.io | 44. And aredn'')" by (simp add: lit_def)
  have c: "scrape_title (Returns (lit ''44net@ardc.groups.io | 44. And aredn'')) = lit ''44. And aredn''"
    by (simp add: scrape_title_def lit_def strip_def is_whitespace_def)
  have s: "strip (lit ''44. And aredn'') = lit ''44. And aredn''" "lit ''44. And aredn'' \<noteq> []"
    by (simp_all add: lit_def strip_def is_whitespace_def)
  have p: "page_title page_ok = Returns (lit ''44net@ardc.groups.io | 44. And aredn'')"
    by (simp add: page_ok_def)
  obtain r where r: "scrape_thread_page page_ok (lit ''t3'') = Inr (Some r)"
    by (simp add: scrape_thread_page_def page_ok_def)
  note T = scrape_title_cases [where e = TimeoutError and page = page_ok and u = "lit ''t3''" and r = r]
  from T [of "lit ''Topics''"] a
  have 1: "scrape_title (Raises TimeoutError) = lit ''Title not found''"
    and 2: "scrape_title (Returns (lit ''Topics'')) = lit ''Topics''" by blast+
  from T [of "lit ''44net@ardc.groups.io | 44. And aredn''"] b
  have 3: "\<exists>prefix rest. lit ''44net@ardc.groups.io | 44. And aredn'' = prefix @ 124 # rest \<and>
      124 \<notin> set rest \<and>
      scrape_title (Returns (lit ''44net@ardc.groups.io | 44. And aredn'')) = strip rest" by blast
  from T [of "lit ''Topics''"] r
  have "title r = (if scrape_title (page_title page_ok) = [] then lit ''N/A''
                 else strip (scrape_title (page_title page_ok)))" by blast
  then have "title r = lit ''44. And aredn''" by (simp add: p c s)
  with r have 4: "\<exists>r. scrape_thread_page page_ok (lit ''t3'') = Inr (Some r) \<and>
      title r = lit ''44. And aredn''" by blast
  from 1 a 2 b 3 c 4 show ?thesis by (intro conjI)
qed

section \<open>Messages\<close>

lemma na_strip: "strip (lit ''N/A'') = lit ''N/A''" "lit ''N/A'' \<noteq> []"
  by (simp_all add: lit_def strip_def is_whitespace_def)

text \<open>
  C6. A field whose extraction raises, or gives \<open>None\<close>, becomes the sentinel \<open>N/A\<close>
  and leaves the other two fields of the message as they are; a field that is extracted is
  kept (stripped, the body cleaned up); and the thread record has one message for each
  container, in order.
\<close>

theorem scrape_message_degrades:
  "scrape_message (el\<lparr>span_title_attribute := Raises e\<rparr>) = (scrape_message el)\<lparr>timestamp := lit ''N/A''\<rparr> \<and>
   scrape_message (el\<lparr>span_title_attribute := Returns None\<rparr>) = (scrape_message el)\<lparr>timestamp := lit ''N/A''\<rparr> \<and>
   scrape_message (el\<lparr>u_text_content := Raises e\<rparr>) = (scrape_message el)\<lparr>author := lit ''N/A''\<rparr> \<and>
   scrape_message (el\<lparr>u_text_content := Returns None\<rparr>) = (scrape_message el)\<lparr>author := lit ''N/A''\<rparr> \<and>
   scrape_message (el\<lparr>user_content_inner_text := Raises e\<rparr>) = (scrape_message el)\<lparr>body := lit ''N/A''\<rparr> \<and>
   (u_text_content el = Returns (Some a) \<and> a \<noteq> [] \<longrightarrow> author (scrape_message el) = strip a) \<and>
   (span_title_attribute el = Returns (Some t) \<and> t \<noteq> [] \<longrightarrow> timestamp (scrape_message el) = strip t) \<and>
   (user_content_inner_text el = Returns b \<longrightarrow> body (scrape_message el) = clean_body b) \<and>
   (goto page = Returns x \<and> wait_for_selector page = Returns y \<and> message_elements page = Returns els \<longrightarrow>
      (\<exists>r. scrape_thread_page page u = Inr (Some r) \<and> messages r = map scrape_message els))"
  by (simp add: scrape_message_def field_or_na_def strip_or_na_def scrape_thread_page_def na_strip)

lemma sample_msg_value:
  "scrape_message sample_msg =
     \<lparr>author = lit ''Bob'', timestamp = lit ''N/A'', body = lit ''hi'' @ [10] @ lit ''73''\<rparr>"
  by (simp add: scrape_message_def sample_msg_def field_or_na_def strip_or_na_def clean_body_def
      splitlines_def lit_def strip_def is_whitespace_def is_linebreak_def)

theorem scrape_message_degrades_witness:
  "span_title_attribute sample_msg = Raises TimeoutError \<and>
   scrape_message sample_msg =
     \<lparr>author = lit ''Bob'', timestamp = lit ''N/A'', body = lit ''hi'' @ [10] @ lit ''73''\<rparr> \<and>
   goto page_ok = Returns () \<and> wait_for_selector page_ok = Returns () \<and>
   message_elements page_ok = Returns [sample_msg] \<and>
   (\<exists>r. scrape_thread_page page_ok (lit ''t3'') = Inr (Some r) \<and>
        messages r = [\<lparr>author = lit ''Bob'', timestamp = lit ''N/A'',
                       body = lit ''hi'' @ [10] @ lit ''73''\<rparr>])"
proof -
  have p: "goto page_ok = Returns ()" "wait_for_selector page_ok = Returns ()"
      "message_elements page_ok = Returns [sample_msg]"
    by (simp_all add: page_ok_def)
  have s: "span_title_attribute sample_msg = Raises TimeoutError" by (simp add: sample_msg_def)
  from scrape_message_degrades [where el = sample_msg and page = page_ok and x = "()" and y = "()"
      and els = "[sample_msg]" and u = "lit ''t3''"] p
  have "\<exists>r. scrape_thread_page page_ok (lit ''t3'') = Inr (Some r) \<and>
        messages r = map scrape_message [sample_msg]" by blast
  then have "\<exists>r. scrape_thread_page page_ok (lit ''t3'') = Inr (Some r) \<and>
        messages r = [\<lparr>author = lit ''Bob'', timestamp = lit ''N/A'',
                       body = lit ''hi'' @ [10] @ lit ''73''\<rparr>]"
    by (simp only: list.map sample_msg_value)
  with p s sample_msg_value show ?thesis by (intro conjI)
qed

section \<open>The extraction loop\<close>

lemma gotos_append: "gotos (xs @ ys) = gotos xs @ gotos ys"
  by (induction xs rule: gotos.induct) simp_all

lemma no_crash_scrape: "no_crash browse \<Longrightarrow> \<exists>d. scrape_thread_page (browse i u) u = Inr d"
proof -
  assume "no_crash browse"
  then obtain els where "message_elements (browse i u) = Returns els"
    unfolding no_crash_def by blast
  then show ?thesis
    by (simp add: scrape_thread_page_def split: outcome.splits)
qed

lemma scrape_loop_Inl:
  "scrape_thread_page (browse i u) u = Inl e \<Longrightarrow>
   scrape_loop browse tot i (u # rest) sd = ([Goto u], sd, Some e)"
  by simp

lemma scrape_loop_Inr:
  "scrape_thread_page (browse i u) u = Inr d \<Longrightarrow>
   scrape_loop browse tot i (u # rest) sd =
     (Goto u #
        (if (i + 1) mod SAVE_EVERY = 0 \<or> int i = int tot - 1
         then [Write_data (case d of None \<Rightarrow> sd | Some r \<Rightarrow> AList.update u r sd)] else []) @
        fst (scrape_loop browse tot (i + 1) rest (case d of None \<Rightarrow> sd | Some r \<Rightarrow> AList.update u r sd)),
      snd (scrape_loop browse tot (i + 1) rest (case d of None \<Rightarrow> sd | Some r \<Rightarrow> AList.update u r sd)))"
  by (simp add: Let_def case_prod_beta)

lemma scrape_loop_final:
  "fst (snd (scrape_loop browse tot i us sd)) = merge sd (extracted browse i us)"
proof (induction us arbitrary: i sd)
  case Nil
  then show ?case by (simp add: merge_def)
next
  case (Cons u rest)
  show ?case
  proof (cases "scrape_thread_page (browse i u) u")
    case (Inl e)
    then show ?thesis by (simp add: merge_def)
  next
    case (Inr d)
    show ?thesis
      unfolding scrape_loop_Inr[where browse=browse and i=i and u=u, OF Inr]
      using Cons.IH Inr by (cases d) (simp_all add: merge_def)
  qed
qed

lemma scrape_loop_gotos:
  "no_crash browse \<Longrightarrow> gotos (fst (scrape_loop browse tot i us sd)) = us"
proof (induction us arbitrary: i sd)
  case Nil
  then show ?case by simp
next
  case (Cons u rest)
  from no_crash_scrape[OF Cons.prems] obtain d where d: "scrape_thread_page (browse i u) u = Inr d"
    by blast
  show ?case
    unfolding scrape_loop_Inr[where browse=browse and i=i and u=u, OF d]
    using Cons by (simp add: gotos_append)
qed

lemma update_append_new:
  "k \<notin> fst ` set sd \<Longrightarrow> AList.update k v (sd @ ys) = sd @ AList.update k v ys"
  by (induction sd) auto

lemma merge_append:
  "fst ` set xs \<inter> fst ` set sd = {} \<Longrightarrow> merge (sd @ ys) xs = sd @ merge ys xs"
proof (induction xs arbitrary: ys)
  case Nil
  then show ?case by (simp add: merge_def)
next
  case (Cons x xs)
  obtain k v where x: "x = (k, v)" by (cases x)
  with Cons.prems have k: "k \<notin> fst ` set sd" by auto
  from Cons.prems have "fst ` set xs \<inter> fst ` set sd = {}" by auto
  from Cons.IH[OF this] show ?case using x k by (simp add: merge_def update_append_new)
qed

lemma map_of_merge: "map_of (merge sd xs) = map_of sd ++ map_of (rev xs)"
proof (induction xs arbitrary: sd)
  case Nil
  then show ?case by (simp add: merge_def)
next
  case (Cons x xs)
  obtain k v where x: "x = (k, v)" by (cases x)
  have "map_of (merge sd (x # xs)) = map_of (merge (AList.update k v sd) xs)"
    using x by (simp add: merge_def)
  also have "\<dots> = map_of (AList.update k v sd) ++ map_of (rev xs)" by (rule Cons.IH)
  also have "\<dots> = map_of sd ++ map_of (rev (x # xs))"
    using x by (simp add: update_conv' map_add_upd_left fun_eq_iff map_add_def split: option.splits)
  finally show ?case .
qed

lemma keys_merge: "fst ` set (merge sd xs) = fst ` set sd \<union> fst ` set xs"
proof -
  have "dom (map_of (merge sd xs)) = dom (map_of sd) \<union> dom (map_of (rev xs))"
    by (simp add: map_of_merge Un_commute)
  then show ?thesis by (simp add: dom_map_of_conv_image_fst)
qed

lemma extracted_keys: "k \<in> fst ` set (extracted browse i us) \<Longrightarrow> k \<in> set us"
proof (induction us arbitrary: i)
  case Nil then show ?case by simp
next
  case (Cons u rest)
  show ?case
  proof (cases "scrape_thread_page (browse i u) u")
    case (Inl e)
    with Cons.prems show ?thesis by simp
  next
    case (Inr d)
    show ?thesis
    proof (cases d)
      case None
      with Inr Cons show ?thesis by simp
    next
      case (Some r)
      with Inr Cons.prems have "k = u \<or> k \<in> fst ` set (extracted browse (i + 1) rest)" by auto
      then show ?thesis using Cons.IH by auto
    qed
  qed
qed

lemma extracted_Some:
  "k \<in> fst ` set (extracted browse i us) \<Longrightarrow> \<exists>j r. scrape_thread_page (browse j k) k = Inr (Some r)"
proof (induction us arbitrary: i)
  case Nil then show ?case by simp
next
  case (Cons u rest)
  show ?case
  proof (cases "scrape_thread_page (browse i u) u")
    case (Inl e)
    with Cons.prems show ?thesis by simp
  next
    case (Inr d)
    show ?thesis
    proof (cases d)
      case None
      with Inr Cons show ?thesis by simp
    next
      case (Some r)
      with Inr Cons.prems have "k = u \<or> k \<in> fst ` set (extracted browse (i + 1) rest)" by auto
      then show ?thesis using Cons.IH Inr Some by blast
    qed
  qed
qed

lemma main_03_alt:
  "main_03 browse fs =
     (if \<not> auth_file fs then (fs, [])
      else case urls_file fs of
        None \<Rightarrow> (fs, [])
      | Some urls \<Rightarrow>
          if urls_to_process fs urls = [] then (fs, [])
          else (fs\<lparr>data_file := Some (fst (snd (scrape_loop browse (length (urls_to_process fs urls)) 0
                                       (urls_to_process fs urls) (stored fs))))\<rparr>,
                fst (scrape_loop browse (length (urls_to_process fs urls)) 0
                       (urls_to_process fs urls) (stored fs)) @
                [Write_data (fst (snd (scrape_loop browse (length (urls_to_process fs urls)) 0
                                       (urls_to_process fs urls) (stored fs))))]))"
  by (simp add: main_03_def Let_def urls_to_process_def stored_def case_prod_beta
      split: option.splits)

lemma main_03_nothing_to_do:
  "auth_file fs \<Longrightarrow> urls_file fs = Some urls \<Longrightarrow> urls_to_process fs urls = [] \<Longrightarrow>
   main_03 browse fs = (fs, [])"
  by (simp add: main_03_alt)

lemma main_03_run:
  "auth_file fs \<Longrightarrow> urls_file fs = Some urls \<Longrightarrow> urls_to_process fs urls \<noteq> [] \<Longrightarrow>
   main_03 browse fs =
     (fs\<lparr>data_file := Some (fst (snd (scrape_loop browse (length (urls_to_process fs urls)) 0
                                       (urls_to_process fs urls) (stored fs))))\<rparr>,
      fst (scrape_loop browse (length (urls_to_process fs urls)) 0 (urls_to_process fs urls) (stored fs)) @
      [Write_data (fst (snd (scrape_loop browse (length (urls_to_process fs urls)) 0
                                       (urls_to_process fs urls) (stored fs))))])"
  by (simp add: main_03_alt)

lemma main_03_stored:
  assumes "auth_file fs" "urls_file fs = Some urls"
  shows "stored (fst (main_03 browse fs)) = merge (stored fs) (extracted browse 0 (urls_to_process fs urls))"
proof (cases "urls_to_process fs urls = []")
  case True
  then show ?thesis using assms by (simp add: main_03_nothing_to_do merge_def)
next
  case False
  then show ?thesis using assms
    by (simp add: main_03_run scrape_loop_final stored_def)
qed

lemma main_03_gotos:
  assumes "auth_file fs" "urls_file fs = Some urls" "no_crash browse"
  shows "gotos (snd (main_03 browse fs)) = urls_to_process fs urls"
proof (cases "urls_to_process fs urls = []")
  case True
  then show ?thesis using assms by (simp add: main_03_nothing_to_do)
next
  case False
  then show ?thesis using assms
    by (simp add: main_03_run gotos_append scrape_loop_gotos)
qed

lemma extracted_new_keys:
  "fst ` set (extracted browse i (urls_to_process fs urls)) \<inter> fst ` set (stored fs) = {}"
proof -
  have "k \<notin> fst ` set (stored fs)" if "k \<in> fst ` set (extracted browse i (urls_to_process fs urls))" for k
    using extracted_keys[OF that] by (simp add: urls_to_process_def)
  then show ?thesis by blast
qed

lemma sample_no_crash: "no_crash sample_browse"
  by (simp add: no_crash_def sample_browse_def page_ok_def page_timeout_def)

lemma sample_todo: "urls_to_process sample_files [lit ''t1'', lit ''t2'', lit ''t3''] = [lit ''t2'', lit ''t3'']"
  by (simp add: urls_to_process_def stored_def sample_files_def lit_def)

text \<open>
  C1. With the session file and the URL file present and no exception leaving the loop, a
  run visits exactly the input URLs that are not keys of the loaded mapping, in the order
  of the input list; the final mapping is the loaded mapping followed by the new entries,
  that is the union of the two, and the value of every key present at load is unchanged.
\<close>

theorem resume_completeness:
  assumes "auth_file fs" and "urls_file fs = Some urls" and "no_crash browse"
  shows "gotos (snd (main_03 browse fs)) = filter (\<lambda>u. u \<notin> fst ` set (stored fs)) urls \<and>
         stored (fst (main_03 browse fs)) =
           stored fs @ merge [] (extracted browse 0 (urls_to_process fs urls)) \<and>
         map_of (stored (fst (main_03 browse fs))) =
           map_of (stored fs) ++ map_of (rev (extracted browse 0 (urls_to_process fs urls))) \<and>
         (\<forall>k\<in>fst ` set (stored fs).
            map_of (stored (fst (main_03 browse fs))) k = map_of (stored fs) k)"
proof (intro conjI ballI)
  let ?new = "extracted browse 0 (urls_to_process fs urls)"
  have st: "stored (fst (main_03 browse fs)) = merge (stored fs) ?new"
    using assms(1,2) by (rule main_03_stored)
  show "gotos (snd (main_03 browse fs)) = filter (\<lambda>u. u \<notin> fst ` set (stored fs)) urls"
    using main_03_gotos[OF assms] by (simp add: urls_to_process_def)
  show "stored (fst (main_03 browse fs)) = stored fs @ merge [] ?new"
    using merge_append[OF extracted_new_keys[of browse 0 fs urls], of "[]"] st by simp
  show m: "map_of (stored (fst (main_03 browse fs))) = map_of (stored fs) ++ map_of (rev ?new)"
    by (simp add: st map_of_merge)
  fix k assume k: "k \<in> fst ` set (stored fs)"
  then have "k \<notin> fst ` set ?new" using extracted_new_keys[of browse 0 fs urls] by blast
  then have "k \<notin> dom (map_of (rev ?new))" by (simp add: dom_map_of_conv_image_fst)
  then show "map_of (stored (fst (main_03 browse fs))) k = map_of (stored fs) k"
    by (simp add: m map_add_dom_app_simps)
qed

theorem resume_completeness_witness:
  "auth_file sample_files \<and> urls_file sample_files = Some [lit ''t1'', lit ''t2'', lit ''t3''] \<and>
   no_crash sample_browse \<and>
   gotos (snd (main_03 sample_browse sample_files)) = [lit ''t2'', lit ''t3''] \<and>
   lit ''t1'' \<in> fst ` set (stored sample_files) \<and>
   map_of (stored (fst (main_03 sample_browse sample_files))) (lit ''t1'') = Some old_record"
proof -
  have a: "auth_file sample_files" by (simp add: sample_files_def)
  have u: "urls_file sample_files = Some [lit ''t1'', lit ''t2'', lit ''t3'']"
    by (simp add: sample_files_def)
  have k: "lit ''t1'' \<in> fst ` set (stored sample_files)"
    by (simp add: stored_def sample_files_def)
  have o: "map_of (stored sample_files) (lit ''t1'') = Some old_record"
    by (simp add: stored_def sample_files_def)
  have f: "filter (\<lambda>u. u \<notin> fst ` set (stored sample_files)) [lit ''t1'', lit ''t2'', lit ''t3'']
           = [lit ''t2'', lit ''t3'']"
    using sample_todo by (simp only: urls_to_process_def)
  note T = resume_completeness [OF a u sample_no_crash]
  from T have "gotos (snd (main_03 sample_browse sample_files)) =
      filter (\<lambda>u. u \<notin> fst ` set (stored sample_files)) [lit ''t1'', lit ''t2'', lit ''t3'']"
    by (rule conjunct1)
  then have g: "gotos (snd (main_03 sample_browse sample_files)) = [lit ''t2'', lit ''t3'']"
    by (simp only: f)
  from T have "\<forall>k\<in>fst ` set (stored sample_files).
      map_of (stored (fst (main_03 sample_browse sample_files))) k = map_of (stored sample_files) k"
    by blast
  then have "map_of (stored (fst (main_03 sample_browse sample_files))) (lit ''t1'') =
      map_of (stored sample_files) (lit ''t1'')"
    using k by (rule bspec)
  then have m: "map_of (stored (fst (main_03 sample_browse sample_files))) (lit ''t1'') = Some old_record"
    by (simp only: o)
  from a u sample_no_crash g k m show ?thesis by (intro conjI)
qed

subsection \<open>Writes of the data file\<close>

lemma write_positions_append:
  "write_positions n (xs @ ys) = write_positions n xs @ write_positions (n + length (gotos xs)) ys"
proof (induction xs arbitrary: n)
  case Nil
  then show ?case by simp
next
  case (Cons e xs)
  then show ?case by (cases e) simp_all
qed

lemma written_append: "written (xs @ ys) = written xs @ written ys"
proof (induction xs)
  case Nil
  then show ?case by simp
next
  case (Cons e xs)
  then show ?case by (cases e) simp_all
qed

lemma length_written: "length (written ev) = length (write_positions n ev)"
proof (induction ev arbitrary: n)
  case Nil
  then show ?case by simp
next
  case (Cons e ev)
  then show ?case by (cases e) simp_all
qed

lemma scrape_loop_positions:
  "no_crash browse \<Longrightarrow>
   write_positions i (fst (scrape_loop browse tot i us sd)) = flush_points tot i (length us)"
proof (induction us arbitrary: i sd)
  case Nil
  then show ?case by simp
next
  case (Cons u rest)
  from no_crash_scrape[OF Cons.prems] obtain d where d: "scrape_thread_page (browse i u) u = Inr d"
    by blast
  show ?case
    unfolding scrape_loop_Inr[where browse=browse and i=i and u=u, OF d]
    using Cons by (simp add: write_positions_append)
qed

lemma scrape_loop_last_write:
  "no_crash browse \<Longrightarrow> us \<noteq> [] \<Longrightarrow> i + length us = tot \<Longrightarrow>
   written (fst (scrape_loop browse tot i us sd)) \<noteq> [] \<and>
   last (written (fst (scrape_loop browse tot i us sd))) = fst (snd (scrape_loop browse tot i us sd))"
proof (induction us arbitrary: i sd)
  case Nil
  then show ?case by simp
next
  case (Cons u rest)
  from no_crash_scrape[OF Cons.prems(1)] obtain d where d: "scrape_thread_page (browse i u) u = Inr d"
    by blast
  let ?sd = "case d of None \<Rightarrow> sd | Some r \<Rightarrow> AList.update u r sd"
  show ?case
  proof (cases "rest = []")
    case True
    with Cons.prems have "int i = int tot - 1" by auto
    with True show ?thesis
      unfolding scrape_loop_Inr[where browse=browse and i=i and u=u, OF d] by simp
  next
    case False
    from Cons.prems have "(i + 1) + length rest = tot" by simp
    from Cons.IH[OF Cons.prems(1) False this, of ?sd] show ?thesis
      unfolding scrape_loop_Inr[where browse=browse and i=i and u=u, OF d]
      by (simp add: written_append)
  qed
qed

lemma main_03_write_positions:
  assumes "auth_file fs" "urls_file fs = Some urls" "no_crash browse" "urls_to_process fs urls \<noteq> []"
  shows "write_positions 0 (snd (main_03 browse fs)) =
           flush_points (length (urls_to_process fs urls)) 0 (length (urls_to_process fs urls)) @
           [length (urls_to_process fs urls)]"
  using assms
  by (simp add: main_03_run write_positions_append scrape_loop_positions scrape_loop_gotos)

lemma main_03_written:
  assumes "auth_file fs" "urls_file fs = Some urls" "no_crash browse" "urls_to_process fs urls \<noteq> []"
  shows "\<exists>ws w. written (snd (main_03 browse fs)) = ws @ [w, w]"
proof -
  let ?n = "length (urls_to_process fs urls)"
  let ?loop = "scrape_loop browse ?n 0 (urls_to_process fs urls) (stored fs)"
  have "written (fst ?loop) \<noteq> [] \<and> last (written (fst ?loop)) = fst (snd ?loop)"
    using assms by (intro scrape_loop_last_write) simp_all
  then have "written (fst ?loop) = butlast (written (fst ?loop)) @ [fst (snd ?loop)]"
    by (metis append_butlast_last_id)
  moreover have "written (snd (main_03 browse fs)) = written (fst ?loop) @ [fst (snd ?loop)]"
    using assms by (simp add: main_03_run written_append)
  ultimately have "written (snd (main_03 browse fs)) =
      butlast (written (fst ?loop)) @ [fst (snd ?loop), fst (snd ?loop)]"
    by simp
  then show ?thesis by blast
qed

lemma flush_points_23: "flush_points 23 0 23 = [10, 20, 23]"
  by code_simp

lemma files_23_facts:
  "auth_file files_23" "urls_file files_23 = Some (map (\<lambda>n. [n]) [0..<23])"
  "length (urls_to_process files_23 (map (\<lambda>n. [n]) [0..<23])) = 23"
  by (simp_all add: files_23_def urls_to_process_def stored_def)

text \<open>
  C4, as amended. With \<open>SAVE_EVERY = 10\<close>, 23 URLs to process and no exception leaving
  the loop, the data file is written four times: after the 10th, the 20th and the 23rd URL
  inside the loop, and once more by the \<open>finally\<close> clause, with the same mapping as the
  third write.
\<close>

theorem flush_cadence_23:
  assumes "auth_file fs" and "urls_file fs = Some urls" and "no_crash browse"
    and "length (urls_to_process fs urls) = 23"
  shows "write_positions 0 (snd (main_03 browse fs)) = [10, 20, 23, 23] \<and>
         (\<exists>a b c. written (snd (main_03 browse fs)) = [a, b, c, c])"
proof
  from assms(4) have ne: "urls_to_process fs urls \<noteq> []" by auto
  show p: "write_positions 0 (snd (main_03 browse fs)) = [10, 20, 23, 23]"
    using main_03_write_positions[OF assms(1-3) ne] by (simp add: assms(4) flush_points_23)
  from main_03_written[OF assms(1-3) ne] obtain ws w where
    w: "written (snd (main_03 browse fs)) = ws @ [w, w]" by blast
  have "length (written (snd (main_03 browse fs))) = 4"
    using length_written[of "snd (main_03 browse fs)" 0] p by simp
  with w have "length ws = 2" by simp
  then obtain a b where "ws = [a, b]"
    by (metis (no_types, opaque_lifting) One_nat_def Suc_1 length_0_conv length_Suc_conv)
  with w show "\<exists>a b c. written (snd (main_03 browse fs)) = [a, b, c, c]" by simp
qed

theorem flush_cadence_23_witness:
  "auth_file files_23 \<and> urls_file files_23 = Some (map (\<lambda>n. [n]) [0..<23]) \<and>
   no_crash sample_browse \<and> length (urls_to_process files_23 (map (\<lambda>n. [n]) [0..<23])) = 23 \<and>
   write_positions 0 (snd (main_03 sample_browse files_23)) = [10, 20, 23, 23] \<and>
   (\<exists>a b c. written (snd (main_03 sample_browse files_23)) = [a, b, c, c])"
  using flush_cadence_23 [OF files_23_facts(1,2) sample_no_crash files_23_facts(3)]
    files_23_facts sample_no_crash by blast

text \<open>C4 as stated fails: a run over 23 URLs writes the data file four times, not three.\<close>

theorem flush_three_times_counterexample:
  "length (write_positions 0 (snd (main_03 sample_browse files_23))) = 4 \<and>
   length (written (snd (main_03 sample_browse files_23))) \<noteq> 3 \<and>
   write_positions 0 (snd (main_03 sample_browse files_23)) \<noteq> [10, 20, 23]"
proof -
  have ne: "urls_to_process files_23 (map (\<lambda>n. [n]) [0..<23]) \<noteq> []"
    using files_23_facts(3) by auto
  have p: "write_positions 0 (snd (main_03 sample_browse files_23)) = [10, 20, 23, 23]"
    using main_03_write_positions[OF files_23_facts(1,2) sample_no_crash ne]
    by (simp add: files_23_facts(3) flush_points_23)
  then show ?thesis
    using length_written[of "snd (main_03 sample_browse files_23)" 0] by simp
qed

subsection \<open>A thread that times out\<close>

lemma scrape_thread_page_skip:
  "goto page = Raises e \<or> wait_for_selector page = Raises e \<Longrightarrow>
   scrape_thread_page page u = Inr None"
  by (auto simp: scrape_thread_page_def split: outcome.splits)

text \<open>
  C5. When the navigation or the wait for the message container raises,
  \<open>scrape_thread_page\<close> returns \<open>None\<close>, the loop passes the mapping on unchanged and
  goes on with the next URL; a URL absent at load whose visits all time out is absent from
  the mapping at the end of the run.
\<close>

theorem timeout_skips_thread:
  "(goto (browse i u) = Raises e \<or> wait_for_selector (browse i u) = Raises e \<longrightarrow>
      scrape_thread_page (browse i u) u = Inr None \<and>
      scrape_loop browse tot i (u # rest) sd =
        (Goto u # (if (i + 1) mod SAVE_EVERY = 0 \<or> int i = int tot - 1 then [Write_data sd] else []) @
           fst (scrape_loop browse tot (i + 1) rest sd),
         snd (scrape_loop browse tot (i + 1) rest sd))) \<and>
   (auth_file fs \<and> urls_file fs = Some urls \<and> u \<notin> fst ` set (stored fs) \<and>
    (\<forall>j. goto (browse j u) = Raises TimeoutError \<or>
         wait_for_selector (browse j u) = Raises TimeoutError) \<longrightarrow>
      u \<notin> fst ` set (stored (fst (main_03 browse fs))))"
proof (intro conjI impI)
  assume a: "goto (browse i u) = Raises e \<or> wait_for_selector (browse i u) = Raises e"
  then show n: "scrape_thread_page (browse i u) u = Inr None"
    by (rule scrape_thread_page_skip)
  show "scrape_loop browse tot i (u # rest) sd =
        (Goto u # (if (i + 1) mod SAVE_EVERY = 0 \<or> int i = int tot - 1 then [Write_data sd] else []) @
           fst (scrape_loop browse tot (i + 1) rest sd),
         snd (scrape_loop browse tot (i + 1) rest sd))"
    using scrape_loop_Inr[where browse=browse and i=i and u=u, OF n] by simp
next
  assume a: "auth_file fs \<and> urls_file fs = Some urls \<and> u \<notin> fst ` set (stored fs) \<and>
    (\<forall>j. goto (browse j u) = Raises TimeoutError \<or>
         wait_for_selector (browse j u) = Raises TimeoutError)"
  have none: "scrape_thread_page (browse j u) u = Inr None" for j
  proof -
    from a have "goto (browse j u) = Raises TimeoutError \<or>
        wait_for_selector (browse j u) = Raises TimeoutError" by blast
    then show ?thesis by (rule scrape_thread_page_skip)
  qed
  have "u \<notin> fst ` set (extracted browse 0 (urls_to_process fs urls))"
  proof
    assume "u \<in> fst ` set (extracted browse 0 (urls_to_process fs urls))"
    from extracted_Some[OF this] obtain j r where "scrape_thread_page (browse j u) u = Inr (Some r)"
      by blast
    with none[of j] show False by simp
  qed
  with a show "u \<notin> fst ` set (stored (fst (main_03 browse fs)))"
    by (simp add: main_03_stored[of fs urls] keys_merge)
qed

lemma sample_t2: "goto (sample_browse j (lit ''t2'')) = Raises TimeoutError \<or>
         wait_for_selector (sample_browse j (lit ''t2'')) = Raises TimeoutError"
  by (simp add: sample_browse_def page_timeout_def)

theorem timeout_skips_thread_witness:
  "wait_for_selector (sample_browse 0 (lit ''t2'')) = Raises TimeoutError \<and>
   scrape_thread_page (sample_browse 0 (lit ''t2'')) (lit ''t2'') = Inr None \<and>
   auth_file sample_files \<and> urls_file sample_files = Some [lit ''t1'', lit ''t2'', lit ''t3''] \<and>
   lit ''t2'' \<notin> fst ` set (stored sample_files) \<and>
   lit ''t2'' \<notin> fst ` set (stored (fst (main_03 sample_browse sample_files))) \<and>
   gotos (snd (main_03 sample_browse sample_files)) = [lit ''t2'', lit ''t3'']"
proof -
  have w: "wait_for_selector (sample_browse 0 (lit ''t2'')) = Raises TimeoutError"
    by (simp add: sample_browse_def page_timeout_def)
  have a: "auth_file sample_files" by (simp add: sample_files_def)
  have u: "urls_file sample_files = Some [lit ''t1'', lit ''t2'', lit ''t3'']"
    by (simp add: sample_files_def)
  have k: "lit ''t2'' \<notin> fst ` set (stored sample_files)"
    by (simp add: stored_def sample_files_def lit_def)
  have g: "gotos (snd (main_03 sample_browse sample_files)) = [lit ''t2'', lit ''t3'']"
    using main_03_gotos[OF a u sample_no_crash] by (simp only: sample_todo)
  note T = timeout_skips_thread [where browse = sample_browse and i = 0 and u = "lit ''t2''"
      and e = TimeoutError and fs = sample_files and urls = "[lit ''t1'', lit ''t2'', lit ''t3'']"]
  from T w have 1: "scrape_thread_page (sample_browse 0 (lit ''t2'')) (lit ''t2'') = Inr None"
    by blast
  from T a u k sample_t2
  have 2: "lit ''t2'' \<notin> fst ` set (stored (fst (main_03 sample_browse sample_files)))"
    by blast
  from w 1 a u k 2 g show ?thesis by (intro conjI)
qed

section \<open>The next-page step\<close>

text \<open>
  In \<open>000002_main_scraper.py\<close> the function never raises: it returns true exactly when
  some locator is visible and its click succeeds, and the locators before the first such
  one are passed over.
\<close>

lemma find_and_click_next_page_contract:
  "find_and_click_next_page locators = Inr (\<exists>locator\<in>set locators. matches locator)"
proof (induction locators)
  case Nil
  then show ?case by simp
next
  case (Cons l ls)
  show ?case
  proof (cases "is_visible l")
    case (Raises e)
    then show ?thesis using Cons by (simp add: matches_def)
  next
    case (Returns v)
    show ?thesis
    proof (cases v)
      case False
      with Returns Cons show ?thesis by (simp add: matches_def)
    next
      case True
      with Returns Cons show ?thesis by (cases "click l") (simp_all add: matches_def)
    qed
  qed
qed

lemma find_and_click_next_page_order:
  "\<forall>l\<in>set before. \<not> matches l \<Longrightarrow>
   find_and_click_next_page (before @ rest) = find_and_click_next_page rest"
proof (induction before)
  case Nil
  then show ?case by simp
next
  case (Cons l ls)
  then have "\<not> matches l" by simp
  then have "find_and_click_next_page (l # ls @ rest) = find_and_click_next_page (ls @ rest)"
    by (cases "is_visible l"; cases "click l") (auto simp: matches_def split: bool.splits)
  with Cons show ?case by simp
qed

lemma not_advance: "\<not> advance pg \<longleftrightarrow> find_and_click_next_page (locators_to_try pg) = Inr False"
  unfolding advance_def find_and_click_next_page_contract by simp

lemma sample_probes:
  "matches next_visible" "\<not> matches next_hidden" "\<not> matches next_broken"
  by (simp_all add: matches_def next_visible_def next_hidden_def next_broken_def)

text \<open>
  C3. In \<open>00002_main_scraper.py\<close> only \<open>TimeoutError\<close> is caught: when \<open>is_visible\<close>
  of the first locator raises another exception, it leaves the function, although the third
  locator is visible; on the same probes the function of \<open>000002_main_scraper.py\<close>
  returns true.
\<close>

theorem find_and_click_next_page_00002_raises:
  "find_and_click_next_page_00002 [next_broken, next_hidden, next_visible, next_hidden, next_hidden]
     = Inl OtherError \<and>
   find_and_click_next_page [next_broken, next_hidden, next_visible, next_hidden, next_hidden]
     = Inr True"
  by (simp add: next_broken_def next_hidden_def next_visible_def)

section \<open>The discovery loop\<close>

lemma paginate_step_advance:
  assumes "quiet (pgs p)" "advance (pgs p)"
  shows "\<exists>urls. paginate pgs seen p ev = paginate pgs (seen \<union> urls) (p + 1) (ev @ [Click])"
proof -
  from assms(1) obtain ls urls where "links (pgs p) = Returns ls" "collect_urls ls {} = Inr urls"
    "wait_for_load_state (pgs p) = Returns ()" unfolding quiet_def by blast
  then have "paginate pgs seen p ev = paginate pgs (seen \<union> urls) (p + 1) (ev @ [Click])"
    using assms(2) by (subst paginate.simps) (simp add: advance_def)
  then show ?thesis ..
qed

lemma paginate_step_stop:
  assumes "quiet (pgs p)" "\<not> advance (pgs p)"
  shows "\<exists>urls. paginate pgs seen p ev = Some (Inr (seen \<union> urls, p), ev)"
proof -
  from assms(1) obtain ls urls where "links (pgs p) = Returns ls" "collect_urls ls {} = Inr urls"
    unfolding quiet_def by blast
  then have "paginate pgs seen p ev = Some (Inr (seen \<union> urls, p), ev)"
    using assms(2) by (subst paginate.simps) (simp add: not_advance)
  then show ?thesis ..
qed

lemma paginate_K_transitions:
  "\<forall>j\<le>K. quiet (pgs (p + j)) \<Longrightarrow> \<forall>j<K. advance (pgs (p + j)) \<Longrightarrow> \<not> advance (pgs (p + K)) \<Longrightarrow>
   \<exists>urls. paginate pgs seen p ev = Some (Inr (urls, p + K), ev @ replicate K Click)"
proof (induction K arbitrary: p seen ev)
  case 0
  then show ?case using paginate_step_stop[where pgs=pgs and p=p and seen=seen and ev=ev] by auto
next
  case (Suc K)
  from Suc.prems have q: "quiet (pgs p)" and a: "advance (pgs p)" by force+
  from paginate_step_advance[where pgs=pgs and p=p, OF q a] obtain urls where
    s: "paginate pgs seen p ev = paginate pgs (seen \<union> urls) (p + 1) (ev @ [Click])" by blast
  have 1: "\<forall>j\<le>K. quiet (pgs (p + 1 + j))"
  proof (intro allI impI)
    fix j assume "j \<le> K"
    then have "Suc j \<le> Suc K" by simp
    with Suc.prems(1) have "quiet (pgs (p + Suc j))" by blast
    then show "quiet (pgs (p + 1 + j))" by simp
  qed
  have 2: "\<forall>j<K. advance (pgs (p + 1 + j))"
  proof (intro allI impI)
    fix j assume "j < K"
    then have "Suc j < Suc K" by simp
    with Suc.prems(2) have "advance (pgs (p + Suc j))" by blast
    then show "advance (pgs (p + 1 + j))" by simp
  qed
  have 3: "\<not> advance (pgs (p + 1 + K))" using Suc.prems(3) by simp
  from Suc.IH[OF 1 2 3, of "seen \<union> urls" "ev @ [Click]"] obtain urls' where
    "paginate pgs (seen \<union> urls) (p + 1) (ev @ [Click]) =
       Some (Inr (urls', p + 1 + K), (ev @ [Click]) @ replicate K Click)" by blast
  with s have "paginate pgs seen p ev = Some (Inr (urls', p + Suc K), ev @ replicate (Suc K) Click)"
    by (simp add: replicate_app_Cons_same)
  then show ?case by blast
qed

lemma paginate_returns_stop:
  assumes "paginate pgs seen p ev = Some r"
  shows "\<exists>k\<ge>p. \<not> advance (pgs k) \<or> \<not> quiet (pgs k)"
  using assms
proof (induction rule: paginate.raw_induct[rotated 1, consumes 1, case_names step])
  case (step paginate' pgs seen p ev r)
  show ?case
  proof (cases "advance (pgs p) \<and> quiet (pgs p)")
    case False
    then show ?thesis by blast
  next
    case True
    then obtain ls urls where l: "links (pgs p) = Returns ls" "collect_urls ls {} = Inr urls"
      "wait_for_load_state (pgs p) = Returns ()" unfolding quiet_def by blast
    from True have a: "find_and_click_next_page (locators_to_try (pgs p)) = Inr True"
      by (simp add: advance_def)
    have "paginate' pgs (seen \<union> urls) (p + 1) (ev @ [Click]) = Some r"
      using step(2) by (simp only: l a outcome.case sum.case if_True)
    from step(1)[OF this] obtain k where "k \<ge> p + 1" "\<not> advance (pgs k) \<or> \<not> quiet (pgs k)" by blast
    then show ?thesis by (intro exI[of _ k]) simp
  qed
qed

lemma ex_first_stop:
  fixes pgs :: "nat \<Rightarrow> listing_page" and p k :: nat
  assumes "k \<ge> p" "\<not> advance (pgs k)"
  shows "\<exists>K. (\<forall>j<K. advance (pgs (p + j))) \<and> \<not> advance (pgs (p + K))"
proof -
  let ?Q = "\<lambda>K. \<not> advance (pgs (p + K))"
  from assms have "?Q (k - p)" by simp
  then have "?Q (LEAST K. ?Q K)" by (rule LeastI)
  moreover have "\<forall>j<(LEAST K. ?Q K). advance (pgs (p + j))"
    using not_less_Least by blast
  ultimately show ?thesis by blast
qed

text \<open>
  C2, as amended. For the next-button loop of \<open>get_all_thread_urls\<close>, on a site where no
  call outside the next-page step raises: the loop returns if and only if the next-page step
  fails on some page; when it succeeds on \<open>K\<close> pages and then fails, the loop returns with
  \<open>page_count\<close> advanced by \<open>K\<close> after exactly \<open>K\<close> clicks, whatever links the pages
  hold; and a page without links on which the step succeeds does not end the loop. The
  page-number loop of \<open>get_all_thread_urls_by_looping\<close> has no next-page step and ends at
  the first page without links.
\<close>

theorem discovery_termination:
  assumes "\<forall>n. quiet (pgs n)"
  shows "((\<exists>r. paginate pgs seen p ev = Some r) \<longleftrightarrow> (\<exists>k\<ge>p. \<not> advance (pgs k))) \<and>
         ((\<forall>j<K. advance (pgs (p + j))) \<and> \<not> advance (pgs (p + K)) \<longrightarrow>
            (\<exists>urls. paginate pgs seen p ev = Some (Inr (urls, p + K), ev @ replicate K Click))) \<and>
         (links (pgs p) = Returns [] \<and> advance (pgs p) \<longrightarrow>
            paginate pgs seen p ev = paginate pgs seen (p + 1) (ev @ [Click])) \<and>
         (goto_group site = Returns () \<and> wait_for_thread_link site = Returns () \<and>
          pages site = pgs \<and> (\<forall>j<K. advance (pgs (1 + j))) \<and> \<not> advance (pgs (1 + K)) \<longrightarrow>
            (\<exists>urls. get_all_thread_urls site = Some (Inr urls, Goto GROUP_URL # replicate K Click))) \<and>
         (goto_page (numbered n) = Returns () \<and> wait_for_topics (numbered n) = Returns () \<and>
          topic_links (numbered n) = Returns [] \<longrightarrow>
            loop_pages numbered (n # rest) found trace =
              (Inr found, trace @ [Goto (GROUP_URL_BASE @ decimal n)]))"
proof (intro conjI impI)
  assume "goto_page (numbered n) = Returns () \<and> wait_for_topics (numbered n) = Returns () \<and>
          topic_links (numbered n) = Returns []"
  then show "loop_pages numbered (n # rest) found trace =
              (Inr found, trace @ [Goto (GROUP_URL_BASE @ decimal n)])"
    by simp
next
  have steps: "\<exists>urls. paginate pgs seen' p' ev' = Some (Inr (urls, p' + K'), ev' @ replicate K' Click)"
    if "\<forall>j<K'. advance (pgs (p' + j))" "\<not> advance (pgs (p' + K'))" for seen' p' ev' K'
    using assms that by (intro paginate_K_transitions) simp_all
  show "(\<exists>r. paginate pgs seen p ev = Some r) \<longleftrightarrow> (\<exists>k\<ge>p. \<not> advance (pgs k))"
  proof
    assume "\<exists>r. paginate pgs seen p ev = Some r"
    then obtain r where "paginate pgs seen p ev = Some r" ..
    from paginate_returns_stop[OF this] assms show "\<exists>k\<ge>p. \<not> advance (pgs k)" by blast
  next
    assume "\<exists>k\<ge>p. \<not> advance (pgs k)"
    then obtain k where "k \<ge> p" "\<not> advance (pgs k)" by blast
    from ex_first_stop[where pgs=pgs and p=p and k=k, OF this] obtain K' where
      "\<forall>j<K'. advance (pgs (p + j))" "\<not> advance (pgs (p + K'))" by blast
    from steps[where p'=p and K'=K', OF this] show "\<exists>r. paginate pgs seen p ev = Some r" by blast
  qed
next
  assume "(\<forall>j<K. advance (pgs (p + j))) \<and> \<not> advance (pgs (p + K))"
  then show "\<exists>urls. paginate pgs seen p ev = Some (Inr (urls, p + K), ev @ replicate K Click)"
    using assms by (intro paginate_K_transitions) simp_all
next
  assume a: "links (pgs p) = Returns [] \<and> advance (pgs p)"
  from assms have "wait_for_load_state (pgs p) = Returns ()" by (simp add: quiet_def)
  with a show "paginate pgs seen p ev = paginate pgs seen (p + 1) (ev @ [Click])"
    by (subst paginate.simps) (simp add: advance_def)
next
  assume a: "goto_group site = Returns () \<and> wait_for_thread_link site = Returns () \<and>
          pages site = pgs \<and> (\<forall>j<K. advance (pgs (1 + j))) \<and> \<not> advance (pgs (1 + K))"
  then have "\<exists>urls. paginate pgs {} 1 [Goto GROUP_URL] =
      Some (Inr (urls, 1 + K), [Goto GROUP_URL] @ replicate K Click)"
    using assms by (intro paginate_K_transitions) simp_all
  then obtain urls where "paginate (pages site) {} 1 [Goto GROUP_URL] =
      Some (Inr (urls, 1 + K), [Goto GROUP_URL] @ replicate K Click)" using a by blast
  with a have "get_all_thread_urls site = Some (Inr urls, Goto GROUP_URL # replicate K Click)"
    by (simp add: get_all_thread_urls_def)
  then show "\<exists>urls. get_all_thread_urls site = Some (Inr urls, Goto GROUP_URL # replicate K Click)" ..
qed

lemma sample_advance:
  "advance (sample_pages 1)" "advance (sample_pages 2)" "\<not> advance (sample_pages 3)"
  by (simp_all add: advance_def find_and_click_next_page_contract sample_pages_def sample_probes)

lemma sample_quiet: "\<forall>n. quiet (sample_pages n)"
  by (simp add: quiet_def sample_pages_def)

theorem discovery_termination_witness:
  "advance (sample_pages 1) \<and> advance (sample_pages 2) \<and> \<not> advance (sample_pages 3) \<and>
   links (sample_pages 2) = Returns [] \<and>
   (\<exists>r. paginate sample_pages {} 1 [] = Some r) \<and>
   (\<exists>urls. paginate sample_pages {} 1 [] = Some (Inr (urls, 3), [Click, Click])) \<and>
   paginate sample_pages {} 2 [] = paginate sample_pages {} 3 [Click] \<and>
   (\<exists>urls. get_all_thread_urls sample_site = Some (Inr urls, [Goto GROUP_URL, Click, Click])) \<and>
   topic_links (numbered_sample 2) = Returns [] \<and>
   loop_pages numbered_sample (2 # [3..<10]) {} [] = (Inr {}, [] @ [Goto (GROUP_URL_BASE @ decimal 2)])"
proof -
  note T = discovery_termination [OF sample_quiet, where K = 2 and site = sample_site
      and numbered = numbered_sample and n = 2 and rest = "[3..<10]" and found = "{}"
      and trace = "[]"]
  have a: "\<forall>j<2. advance (sample_pages (1 + j))"
  proof (intro allI impI)
    fix j :: nat
    assume "j < 2"
    then have "j = 0 \<or> j = 1" by auto
    then show "advance (sample_pages (1 + j))"
      by (auto simp: advance_def find_and_click_next_page_contract sample_pages_def sample_probes)
  qed
  have n: "\<not> advance (sample_pages (1 + 2))"
    by (simp add: advance_def find_and_click_next_page_contract sample_pages_def sample_probes)
  have l: "links (sample_pages 2) = Returns []" by (simp add: sample_pages_def)
  have s: "goto_group sample_site = Returns ()" "wait_for_thread_link sample_site = Returns ()"
    "pages sample_site = sample_pages" by (simp_all add: sample_site_def)
  have q: "goto_page (numbered_sample 2) = Returns ()" "wait_for_topics (numbered_sample 2) = Returns ()"
    "topic_links (numbered_sample 2) = Returns []"
    by (simp_all add: numbered_sample_def)
  from T[of "{}" 1 "[]"] a n
  have 1: "\<exists>urls. paginate sample_pages {} 1 [] = Some (Inr (urls, 1 + 2), [] @ replicate 2 Click)"
    by blast
  have e: "(1::nat) + 2 = 3" "(2::nat) + 1 = 3" "[] @ replicate 2 Click = [Click, Click]"
    "[] @ [Click] = [Click]" "Goto GROUP_URL # replicate 2 Click = [Goto GROUP_URL, Click, Click]"
    by (simp_all add: numeral_2_eq_2)
  from 1 have 2: "\<exists>urls. paginate sample_pages {} 1 [] = Some (Inr (urls, 3), [Click, Click])"
    by (simp only: e)
  then have 3: "\<exists>r. paginate sample_pages {} 1 [] = Some r" by blast
  from T[of "{}" 2 "[]"] l sample_advance(2)
  have 4: "paginate sample_pages {} 2 [] = paginate sample_pages {} (2 + 1) ([] @ [Click])" by blast
  then have 5: "paginate sample_pages {} 2 [] = paginate sample_pages {} 3 [Click]"
    by (simp only: e)
  from T[of "{}" 1 "[]"] s a n
  have "\<exists>urls. get_all_thread_urls sample_site = Some (Inr urls, Goto GROUP_URL # replicate 2 Click)"
    by blast
  then have 6: "\<exists>urls. get_all_thread_urls sample_site = Some (Inr urls, [Goto GROUP_URL, Click, Click])"
    by (simp only: e)
  from T[of "{}" 1 "[]"] q
  have 7: "loop_pages numbered_sample (2 # [3..<10]) {} [] =
      (Inr {}, [] @ [Goto (GROUP_URL_BASE @ decimal 2)])" by blast
  from sample_advance l 3 2 5 6 q(3) 7 show ?thesis by (intro conjI)
qed

text \<open>
  C2 as stated fails on the page-number loop: page 2 has no links, and the loop ends there
  although page 3 has a thread link; only pages 1 and 2 are visited.
\<close>

theorem empty_page_ends_numbered_loop_counterexample:
  "topic_links (numbered_sample 2) = Returns [] \<and>
   topic_links (numbered_sample 3) = Returns [Returns (Some (lit ''/g/44net/topic/3''))] \<and>
   get_all_thread_urls_by_looping numbered_sample =
     (Inr {lit ''https://groups.io/g/44net/topic/1''},
      [Goto (lit ''https://ardc.groups.io/g/44net/topics?page=1''),
       Goto (lit ''https://ardc.groups.io/g/44net/topics?page=2'')])"
proof -
  have r: "PAGE_RANGE = 1 # 2 # [3..<10]" by (simp add: PAGE_RANGE_def upt_rec)
  have "get_all_thread_urls_by_looping numbered_sample =
     (Inr {lit ''https://groups.io/g/44net/topic/1''},
      [Goto (lit ''https://ardc.groups.io/g/44net/topics?page=1''),
       Goto (lit ''https://ardc.groups.io/g/44net/topics?page=2'')])"
    unfolding get_all_thread_urls_by_looping_def r
    by (simp add: numbered_sample_def GROUP_URL_BASE_def lit_def)
  then show ?thesis by (simp add: numbered_sample_def lit_def)
qed

section \<open>The persisted URL list\<close>

lemma sorted_urls: "sorted (sorted_list_of_set (A :: str set)) \<and> distinct (sorted_list_of_set A)"
  by simp

lemma collect_urls_props:
  "collect_urls ls acc = Inr urls \<Longrightarrow> finite acc \<Longrightarrow> \<forall>u\<in>acc. is_thread_url u \<Longrightarrow>
   finite urls \<and> (\<forall>u\<in>urls. is_thread_url u)"
proof (induction ls arbitrary: acc)
  case Nil
  then show ?case by simp
next
  case (Cons l ls)
  show ?case
  proof (cases l)
    case (Raises e)
    with Cons.prems show ?thesis by simp
  next
    case (Returns v)
    show ?thesis
    proof (cases v)
      case None
      with Returns Cons show ?thesis by simp
    next
      case (Some href)
      show ?thesis
      proof (cases "href = []")
        case True
        with Some Returns Cons show ?thesis by simp
      next
        case False
        let ?acc = "insert (lit ''https://groups.io'' @ href) acc"
        from False Some Returns Cons.prems have c: "collect_urls ls ?acc = Inr urls" by simp
        have "finite ?acc" using Cons.prems by simp
        moreover have "\<forall>u\<in>?acc. is_thread_url u"
          using Cons.prems False by (auto simp: is_thread_url_def)
        ultimately show ?thesis using Cons.IH[OF c] by blast
      qed
    qed
  qed
qed

lemma paginate_urls:
  assumes "paginate pgs seen p ev = Some r"
  shows "\<forall>urls n ev'. r = (Inr (urls, n), ev') \<longrightarrow> finite seen \<longrightarrow> (\<forall>u\<in>seen. is_thread_url u) \<longrightarrow>
           finite urls \<and> (\<forall>u\<in>urls. is_thread_url u)"
  using assms
proof (induction rule: paginate.raw_induct[rotated 1, consumes 1, case_names step])
  case (step paginate' pgs seen p ev r)
  show ?case
  proof (intro allI impI)
    fix urls n ev'
    assume r: "r = (Inr (urls, n), ev')" and f: "finite seen" and t: "\<forall>u\<in>seen. is_thread_url u"
    from step(2) r obtain ls where l: "links (pgs p) = Returns ls"
      by (cases "links (pgs p)") auto
    from step(2) r l obtain cur where c: "collect_urls ls {} = Inr cur"
      by (cases "collect_urls ls {}") auto
    from collect_urls_props[OF c] have cur: "finite cur" "\<forall>u\<in>cur. is_thread_url u" by auto
    have fc: "find_and_click_next_page (locators_to_try (pgs p)) =
        Inr (\<exists>locator\<in>set (locators_to_try (pgs p)). matches locator)"
      by (rule find_and_click_next_page_contract)
    show "finite urls \<and> (\<forall>u\<in>urls. is_thread_url u)"
    proof (cases "\<exists>locator\<in>set (locators_to_try (pgs p)). matches locator")
      case False
      with step(2) r l c fc have "urls = seen \<union> cur" by simp
      with f t cur show ?thesis by auto
    next
      case True
      with step(2) r l c fc obtain x where "wait_for_load_state (pgs p) = Returns x"
        by (cases "wait_for_load_state (pgs p)") auto
      with True step(2) l c fc have "paginate' pgs (seen \<union> cur) (p + 1) (ev @ [Click]) = Some r"
        by simp
      from step(1)[OF this] r f t cur show ?thesis by auto
    qed
  qed
qed

lemma paginate_events:
  assumes "paginate pgs seen p ev = Some r"
  shows "set (snd r) \<subseteq> set ev \<union> {Click}"
  using assms
proof (induction rule: paginate.raw_induct[rotated 1, consumes 1, case_names step])
  case (step paginate' pgs seen p ev r)
  have fc: "find_and_click_next_page (locators_to_try (pgs p)) =
      Inr (\<exists>locator\<in>set (locators_to_try (pgs p)). matches locator)"
    by (rule find_and_click_next_page_contract)
  show ?case
  proof (cases "links (pgs p)")
    case (Raises e)
    with step(2) show ?thesis by auto
  next
    case (Returns ls)
    show ?thesis
    proof (cases "collect_urls ls {}")
      case (Inl e)
      with Returns step(2) show ?thesis by auto
    next
      case (Inr cur)
      show ?thesis
      proof (cases "\<exists>locator\<in>set (locators_to_try (pgs p)). matches locator")
        case False
        with step(2) Returns Inr fc show ?thesis by auto
      next
        case True
        show ?thesis
        proof (cases "wait_for_load_state (pgs p)")
          case (Raises e)
          with True step(2) Returns Inr fc show ?thesis by auto
        next
          case r: (Returns x)
          with True step(2) Returns Inr fc
          have "paginate' pgs (seen \<union> cur) (p + 1) (ev @ [Click]) = Some r" by simp
          from step(1)[OF this] show ?thesis by auto
        qed
      qed
    qed
  qed
qed

lemma get_all_thread_urls_events:
  assumes "get_all_thread_urls site = Some (r, ev)"
  shows "Write_urls xs \<notin> set ev"
proof (cases "goto_group site")
  case (Raises e)
  with assms show ?thesis by (auto simp: get_all_thread_urls_def)
next
  case g: (Returns x)
  show ?thesis
  proof (cases "wait_for_thread_link site")
    case (Raises e)
    with g assms show ?thesis by (auto simp: get_all_thread_urls_def)
  next
    case w: (Returns y)
    from assms g w obtain r' where p: "paginate (pages site) {} 1 [Goto GROUP_URL] = Some (r', ev)"
      by (auto simp: get_all_thread_urls_def split: option.splits sum.splits prod.splits)
    from paginate_events[OF p] show ?thesis by auto
  qed
qed

lemma get_all_thread_urls_set:
  assumes "get_all_thread_urls site = Some (Inr urls, ev)"
  shows "finite urls \<and> (\<forall>u\<in>urls. is_thread_url u)"
proof -
  from assms obtain n where p: "paginate (pages site) {} 1 [Goto GROUP_URL] = Some (Inr (urls, n), ev)"
    by (auto simp: get_all_thread_urls_def split: option.splits sum.splits prod.splits outcome.splits)
  from paginate_urls[OF p] show ?thesis by simp
qed

text \<open>
  C9. The list that \<open>main\<close> writes to the URL file is sorted, has no duplicates, and
  each of its URLs is the fixed prefix \<open>https://groups.io\<close> followed by a collected,
  non-empty \<open>href\<close>.
\<close>

theorem discovered_urls_file:
  "main_000002 site fs = Some (fs', ev) \<and> Write_urls xs \<in> set ev \<longrightarrow>
     urls_file fs' = Some xs \<and> sorted xs \<and> distinct xs \<and>
     (\<forall>u\<in>set xs. \<exists>href. href \<noteq> [] \<and> u = lit ''https://groups.io'' @ href)"
proof
  assume a: "main_000002 site fs = Some (fs', ev) \<and> Write_urls xs \<in> set ev"
  then have auth: "auth_file fs" by (auto simp: main_000002_def split: if_splits)
  from a auth obtain r ev0 where g: "get_all_thread_urls site = Some (r, ev0)"
    by (cases "get_all_thread_urls site") (auto simp: main_000002_def)
  note no = get_all_thread_urls_events[OF g, of xs]
  show "urls_file fs' = Some xs \<and> sorted xs \<and> distinct xs \<and>
     (\<forall>u\<in>set xs. \<exists>href. href \<noteq> [] \<and> u = lit ''https://groups.io'' @ href)"
  proof (cases r)
    case (Inl e)
    with a auth g no show ?thesis by (auto simp: main_000002_def)
  next
    case (Inr urls)
    with a auth g have fs': "fs' = fs\<lparr>urls_file := Some (sorted_list_of_set urls)\<rparr>"
      and ev: "ev = ev0 @ [Write_urls (sorted_list_of_set urls)]"
      by (auto simp: main_000002_def)
    from a ev no have xs: "xs = sorted_list_of_set urls" by auto
    from get_all_thread_urls_set[OF g[unfolded Inr]] have "finite urls" "\<forall>u\<in>urls. is_thread_url u"
      by auto
    then have "\<forall>u\<in>set xs. \<exists>href. href \<noteq> [] \<and> u = lit ''https://groups.io'' @ href"
      by (simp add: xs is_thread_url_def)
    then show ?thesis using fs' xs by simp
  qed
qed

lemma sample_paginate:
  "paginate sample_pages {} 1 [Goto GROUP_URL] =
     Some (Inr ({lit ''https://groups.io/g/44net/topic/1'', lit ''https://groups.io/g/44net/topic/2''}, 3),
           [Goto GROUP_URL, Click, Click])"
proof -
  have 3: "paginate sample_pages S (Suc (Suc (Suc 0))) ev =
      Some (Inr (S \<union> {lit ''https://groups.io/g/44net/topic/2''}, Suc (Suc (Suc 0))), ev)" for S ev
    by (subst paginate.simps)
      (auto simp: find_and_click_next_page_contract sample_pages_def sample_probes lit_def)
  have 2: "paginate sample_pages S (Suc (Suc 0)) ev =
      paginate sample_pages S (Suc (Suc (Suc 0))) (ev @ [Click])" for S ev
    by (subst paginate.simps)
      (auto simp: find_and_click_next_page_contract sample_pages_def sample_probes lit_def)
  have 1: "paginate sample_pages {} (Suc 0) ev = paginate sample_pages
      {lit ''https://groups.io/g/44net/topic/1'', lit ''https://groups.io/g/44net/topic/2''}
      (Suc (Suc 0)) (ev @ [Click])" for ev
    by (subst paginate.simps)
      (auto simp: find_and_click_next_page_contract sample_pages_def sample_probes lit_def)
  have "paginate sample_pages {} (Suc 0) [Goto GROUP_URL] =
     Some (Inr ({lit ''https://groups.io/g/44net/topic/1'', lit ''https://groups.io/g/44net/topic/2''},
                Suc (Suc (Suc 0))),
           [Goto GROUP_URL, Click, Click])"
    by (simp only: 1 2 3) (simp add: insert_commute)
  then show ?thesis by (simp add: eval_nat_numeral)
qed

lemma sample_sorted:
  "sorted_list_of_set {lit ''https://groups.io/g/44net/topic/1'', lit ''https://groups.io/g/44net/topic/2''} =
   [lit ''https://groups.io/g/44net/topic/1'', lit ''https://groups.io/g/44net/topic/2'']"
  by (simp add: lit_def)

lemma sample_main_value:
  "main_000002 sample_site sample_files =
     Some (sample_files\<lparr>urls_file := Some [lit ''https://groups.io/g/44net/topic/1'',
                                             lit ''https://groups.io/g/44net/topic/2'']\<rparr>,
           [Goto GROUP_URL, Click, Click,
            Write_urls [lit ''https://groups.io/g/44net/topic/1'', lit ''https://groups.io/g/44net/topic/2'']])"
  by (simp add: main_000002_def get_all_thread_urls_def sample_site_def
      sample_paginate[unfolded One_nat_def] sample_sorted sample_files_def)

theorem discovered_urls_file_witness:
  "main_000002 sample_site sample_files =
     Some (sample_files\<lparr>urls_file := Some [lit ''https://groups.io/g/44net/topic/1'',
                                             lit ''https://groups.io/g/44net/topic/2'']\<rparr>,
           [Goto GROUP_URL, Click, Click,
            Write_urls [lit ''https://groups.io/g/44net/topic/1'', lit ''https://groups.io/g/44net/topic/2'']]) \<and>
   sorted [lit ''https://groups.io/g/44net/topic/1'', lit ''https://groups.io/g/44net/topic/2''] \<and>
   distinct [lit ''https://groups.io/g/44net/topic/1'', lit ''https://groups.io/g/44net/topic/2''] \<and>
   (\<exists>href. href \<noteq> [] \<and>
      lit ''https://groups.io/g/44net/topic/1'' = lit ''https://groups.io'' @ href)"
proof -
  let ?xs = "[lit ''https://groups.io/g/44net/topic/1'', lit ''https://groups.io/g/44net/topic/2'']"
  let ?ev = "[Goto GROUP_URL, Click, Click, Write_urls ?xs]"
  have w: "Write_urls ?xs \<in> set ?ev" by simp
  from discovered_urls_file [of sample_site sample_files
      "sample_files\<lparr>urls_file := Some ?xs\<rparr>" ?ev ?xs] sample_main_value w
  have "sorted ?xs \<and> distinct ?xs \<and>
      (\<forall>u\<in>set ?xs. \<exists>href. href \<noteq> [] \<and> u = lit ''https://groups.io'' @ href)"
    by blast
  then have "sorted ?xs \<and> distinct ?xs \<and>
      (\<exists>href. href \<noteq> [] \<and> lit ''https://groups.io/g/44net/topic/1'' = lit ''https://groups.io'' @ href)"
    by simp
  with sample_main_value show ?thesis by blast
qed

section \<open>Missing input files\<close>

text \<open>
  C7. Without the session file, or without the URL file for the extraction, \<open>main\<close>
  returns the files as they were and makes no navigation and no write; the same holds for
  the discovery \<open>main\<close> without the session file.
\<close>

theorem fatal_precondition:
  "(\<not> auth_file fs \<or> urls_file fs = None \<longrightarrow> main_03 browse fs = (fs, [])) \<and>
   (\<not> auth_file fs \<longrightarrow> main_000002 site fs = Some (fs, []))"
  by (auto simp: main_03_def main_000002_def)

theorem fatal_precondition_witness:
  "\<not> auth_file no_auth_files \<and> main_03 sample_browse no_auth_files = (no_auth_files, []) \<and>
   main_000002 sample_site no_auth_files = Some (no_auth_files, []) \<and>
   urls_file no_urls_files = None \<and> main_03 sample_browse no_urls_files = (no_urls_files, [])"
proof -
  have a: "\<not> auth_file no_auth_files" by (simp add: no_auth_files_def)
  have u: "urls_file no_urls_files = None" by (simp add: no_urls_files_def)
  from fatal_precondition [of no_auth_files sample_browse sample_site] a
  have 1: "main_03 sample_browse no_auth_files = (no_auth_files, [])"
    and 2: "main_000002 sample_site no_auth_files = Some (no_auth_files, [])" by blast+
  from fatal_precondition [of no_urls_files sample_browse sample_site] u
  have 3: "main_03 sample_browse no_urls_files = (no_urls_files, [])" by blast
  from a 1 2 u 3 show ?thesis by (intro conjI)
qed

end
